theory Spec2Isabelle
  imports Main "HOL-Library.Multiset"
begin

section \<open>Go values shared by the packages\<close>

text \<open>
  A Go slice is either \<open>nil\<close> or a (possibly empty) sequence: \<open>None\<close> is the nil slice,
  \<open>Some xs\<close> a non-nil slice holding \<open>xs\<close>. \<open>len\<close> of the nil slice is 0 and ranging
  over it visits nothing, as in Go.
\<close>

type_synonym 'a slice = "'a list option"

type_synonym byte = char

definition len :: "'a slice \<Rightarrow> nat" where
  "len s = (case s of None \<Rightarrow> 0 | Some xs \<Rightarrow> length xs)"

definition elems :: "'a slice \<Rightarrow> 'a list" where
  "elems s = (case s of None \<Rightarrow> [] | Some xs \<Rightarrow> xs)"

text \<open>\<open>append(s, xs...)\<close>: appending nothing to the nil slice leaves it nil.\<close>

definition append_slice :: "'a slice \<Rightarrow> 'a list \<Rightarrow> 'a slice" where
  "append_slice s xs =
     (case s of
        None \<Rightarrow> (if xs = [] then None else Some xs)
      | Some ys \<Rightarrow> Some (ys @ xs))"

text \<open>
  What a call does: it returns a value, it panics with a payload, or it never returns
  (it stays blocked on a channel).
\<close>

datatype ('a, 'p) outcome = Returns 'a | Panics 'p | Blocks

section \<open>Package command: the process executor\<close>

text \<open>\<open>zerolog.Level\<close>; only the comparison with \<open>zerolog.Disabled\<close> is used.\<close>

datatype Level =
  DebugLevel | InfoLevel | WarnLevel | ErrorLevel | FatalLevel | PanicLevel
  | NoLevel | Disabled | TraceLevel

text \<open>
  The closures \<open>Start\<close> appends to \<open>t.goroutine\<close>: the stdout scanner, the stderr
  scanner and the deadline watcher.
\<close>

datatype task = StdoutTask | StderrTask | CtxTask

text \<open>
  The struct \<open>T\<close>. A pointer or function field that the code only tests against
  \<open>nil\<close> is a flag (\<open>log\<close>, \<open>cmd\<close>, \<open>cancel\<close>, \<open>onStdoutLine\<close>, \<open>onStderrLine\<close>);
  \<open>done_chan\<close> (the field \<open>done\<close>) is \<open>None\<close> for the nil channel and \<open>Some c\<close>
  for a channel of capacity \<open>c\<close>; \<open>timeout\<close> is the \<open>time.Duration\<close> in nanoseconds.
  The fields that only the display string reads (\<open>name\<close>, \<open>args\<close>, \<open>label\<close>) and those
  \<open>update\<close> hands to the operating system (\<open>user\<close>, \<open>group\<close>, \<open>cwd\<close>, \<open>env\<close>) are
  left out.
\<close>

record T =
  log :: bool
  stdoutLogLevel :: Level
  stderrLogLevel :: Level
  bufferStdout :: bool
  bufferStderr :: bool
  cmd :: bool
  timeout :: int
  onStdoutLine :: bool
  onStderrLine :: bool
  pid :: int
  done_chan :: "nat option"
  goroutine :: "task list"
  cancel :: bool
  stdout :: "byte slice"
  stderr :: "byte slice"

text \<open>Observable effects of the executor, in the order they happen.\<close>

datatype event =
  LogOut Level string
  | LogErr Level string
  | CallOnStdoutLine string
  | CallOnStderrLine string
  | Send string
  | Recv string
  | LogEndOfGoroutine string
  | CmdWait
  | CallCancel

text \<open>
  What the operating system answers to one \<open>Start\<close>: the errors of \<open>valid\<close>, of
  \<open>update\<close> (credential lookup), of the two pipe creations and of \<open>cmd.Start\<close>
  (\<open>None\<close> is \<open>nil\<close>), and the process id.
\<close>

record os_reply =
  valid_err :: "string option"
  update_err :: "string option"
  stdoutPipe_err :: "string option"
  stderrPipe_err :: "string option"
  start_err :: "string option"
  process_pid :: int

text \<open>
  What the subprocess does when it runs to its natural end: the lines the two scanners
  read from its pipes, and the error of \<open>cmd.Wait\<close>.
\<close>

record process =
  out_lines :: "string list"
  err_lines :: "string list"
  wait_err :: "string option"

definition stripFistByte :: "byte slice \<Rightarrow> byte slice" where
  "stripFistByte b = (if len b > 1 then Some (drop 1 (elems b)) else b)"

definition Stdout :: "T \<Rightarrow> byte slice" where
  "Stdout t = stripFistByte (stdout t)"

definition Stderr :: "T \<Rightarrow> byte slice" where
  "Stderr t = stripFistByte (stderr t)"

text \<open>One iteration of the stdout scanner loop, for the line \<open>l\<close>.\<close>

definition stdout_line :: "string \<Rightarrow> T \<times> event list \<Rightarrow> T \<times> event list" where
  "stdout_line l st =
     (case st of (t, tr) \<Rightarrow>
        (if bufferStdout t then t\<lparr>stdout := append_slice (stdout t) (CHR 0x0A # l)\<rparr> else t,
         tr @ (if stdoutLogLevel t \<noteq> Disabled then [LogOut (stdoutLogLevel t) l] else [])
            @ (if onStdoutLine t then [CallOnStdoutLine l] else [])))"

definition stderr_line :: "string \<Rightarrow> T \<times> event list \<Rightarrow> T \<times> event list" where
  "stderr_line l st =
     (case st of (t, tr) \<Rightarrow>
        (if bufferStderr t then t\<lparr>stderr := append_slice (stderr t) (CHR 0x0A # l)\<rparr> else t,
         tr @ (if stderrLogLevel t \<noteq> Disabled then [LogErr (stderrLogLevel t) l] else [])
            @ (if onStderrLine t then [CallOnStderrLine l] else [])))"

text \<open>
  The two scanner closures: every line in turn, then the completion signal on
  \<open>t.done\<close>.
\<close>

definition stdout_task :: "string list \<Rightarrow> T \<times> event list \<Rightarrow> T \<times> event list" where
  "stdout_task ls st =
     (case foldl (\<lambda>s l. stdout_line l s) st ls of (t, tr) \<Rightarrow> (t, tr @ [Send ''stdout'']))"

definition stderr_task :: "string list \<Rightarrow> T \<times> event list \<Rightarrow> T \<times> event list" where
  "stderr_task ls st =
     (case foldl (\<lambda>s l. stderr_line l s) st ls of (t, tr) \<Rightarrow> (t, tr @ [Send ''stderr'']))"

text \<open>
  \<open>Start\<close>, with the error it returns and the struct as it leaves it. The pipes are
  requested and the closures registered in the source's order; the channel is made, and
  the closures are spawned, only after \<open>cmd.Start\<close> succeeded.
\<close>

definition register_stdout :: "T \<Rightarrow> T" where
  "register_stdout t = t\<lparr>goroutine := goroutine t @ [StdoutTask]\<rparr>"

definition register_stderr :: "T \<Rightarrow> T" where
  "register_stderr t = t\<lparr>goroutine := goroutine t @ [StderrTask]\<rparr>"

definition register_ctx :: "T \<Rightarrow> T" where
  "register_ctx t = t\<lparr>cancel := True, goroutine := goroutine t @ [CtxTask]\<rparr>"

definition wants_stdout :: "T \<Rightarrow> bool" where
  "wants_stdout t \<longleftrightarrow> stdoutLogLevel t \<noteq> Disabled \<or> bufferStdout t \<or> onStdoutLine t"

definition wants_stderr :: "T \<Rightarrow> bool" where
  "wants_stderr t \<longleftrightarrow> stderrLogLevel t \<noteq> Disabled \<or> bufferStderr t \<or> onStderrLine t"

definition launch :: "os_reply \<Rightarrow> T \<Rightarrow> string option \<times> T" where
  "launch os t =
     (case start_err os of
        Some e \<Rightarrow> (Some e, t)
      | None \<Rightarrow>
          (let t1 = t\<lparr>pid := process_pid os\<rparr>;
               t2 = (if length (goroutine t1) > 0
                     then t1\<lparr>done_chan := Some (length (goroutine t1))\<rparr> else t1)
           in (None, t2)))"

definition Start :: "os_reply \<Rightarrow> T \<Rightarrow> string option \<times> T" where
  "Start os t =
     (case valid_err os of
        Some e \<Rightarrow> (Some e, t)
      | None \<Rightarrow>
     (let t0 = t\<lparr>cmd := True\<rparr> in
      case update_err os of
        Some e \<Rightarrow> (Some e, t0)
      | None \<Rightarrow>
     (if wants_stdout t0 \<and> stdoutPipe_err os \<noteq> None then (stdoutPipe_err os, t0)
      else
     (let t1 = (if wants_stdout t0 then register_stdout t0 else t0) in
      if wants_stderr t1 \<and> stderrPipe_err os \<noteq> None then (stderrPipe_err os, t1)
      else
     (let t2 = (if wants_stderr t1 then register_stderr t1 else t1);
          t3 = (if timeout t2 > 0 then register_ctx t2 else t2)
      in launch os t3)))))"

text \<open>
  \<open>Wait\<close>. \<open>arrivals\<close> is what the channel \<open>t.done\<close> delivers, in order; a receive
  from the nil channel, or past the last arrival, never returns. \<open>cmd.Wait\<close> on a nil
  \<open>cmd\<close> is a nil dereference. The deferred \<open>t.cancel\<close> runs last.
\<close>

definition waitCount :: "T \<Rightarrow> int" where
  "waitCount t = (if cancel t then int (length (goroutine t)) - 1 else int (length (goroutine t)))"

definition received :: "T \<Rightarrow> string list \<Rightarrow> string list" where
  "received t arrivals = take (nat (waitCount t)) arrivals"

definition recv_events :: "T \<Rightarrow> string list \<Rightarrow> event list" where
  "recv_events t sigs =
     concat (map (\<lambda>s. if log t then [Recv s, LogEndOfGoroutine s] else [Recv s]) sigs)"

definition Wait :: "process \<Rightarrow> string list \<Rightarrow> T \<Rightarrow> (string option \<times> event list, string) outcome" where
  "Wait p arrivals t =
     (if 0 < waitCount t \<and> (done_chan t = None \<or> int (length arrivals) < waitCount t) then Blocks
      else if \<not> cmd t then Panics ''nil pointer dereference''
      else Returns (wait_err p,
                   recv_events t (received t arrivals) @ [CmdWait]
                     @ (if cancel t then [CallCancel] else [])))"

text \<open>
  \<open>Run\<close> for a subprocess that reaches its natural end before any deadline: after a
  successful \<open>Start\<close> every registered scanner reads its lines to the end of the
  stream and signals, then \<open>Wait\<close> collects. The deadline watcher only signals after
  \<open>cancel\<close>, so it contributes nothing to what \<open>Wait\<close> receives. The two scanners write
  different fields, so their interleaving does not show in the buffers.
\<close>

definition run_task :: "process \<Rightarrow> task \<Rightarrow> T \<times> event list \<Rightarrow> T \<times> event list" where
  "run_task p k st =
     (case k of
        StdoutTask \<Rightarrow> stdout_task (out_lines p) st
      | StderrTask \<Rightarrow> stderr_task (err_lines p) st
      | CtxTask \<Rightarrow> st)"

definition signals :: "event list \<Rightarrow> string list" where
  "signals tr = concat (map (\<lambda>e. case e of Send s \<Rightarrow> [s] | _ \<Rightarrow> []) tr)"

definition Run :: "os_reply \<Rightarrow> process \<Rightarrow> T \<Rightarrow> ((string option \<times> event list) \<times> T, string) outcome" where
  "Run os p t =
     (case Start os t of
        (Some e, t1) \<Rightarrow> Returns ((Some e, []), t1)
      | (None, t1) \<Rightarrow>
          (case foldl (\<lambda>s k. run_task p k s) (t1, []) (goroutine t1) of
             (t2, tr) \<Rightarrow>
               (case Wait p (signals tr) t2 of
                  Returns (e, tr') \<Rightarrow> Returns ((e, tr @ tr'), t2)
                | Panics m \<Rightarrow> Panics m
                | Blocks \<Rightarrow> Blocks)))"

text \<open>\<open>New\<close> with no option applied.\<close>

definition New :: T where
  "New = \<lparr>log = False,
          stdoutLogLevel = Disabled, stderrLogLevel = Disabled,
          bufferStdout = False, bufferStderr = False, cmd = False, timeout = 0,
          onStdoutLine = False, onStderrLine = False, pid = 0, done_chan = None,
          goroutine = [], cancel = False, stdout = None, stderr = None\<rparr>"

text \<open>\<open>bytes.Join(lines, "\n")\<close>: the lines with one newline between neighbours.\<close>

fun join_lines :: "string list \<Rightarrow> string" where
  "join_lines [] = []"
| "join_lines [l] = l"
| "join_lines (l # ls) = l @ CHR 0x0A # join_lines ls"

text \<open>The signals \<open>Wait\<close> received before it called \<open>cmd.Wait\<close>.\<close>

definition recvd :: "event list \<Rightarrow> string list" where
  "recvd tr = concat (map (\<lambda>e. case e of Recv s \<Rightarrow> [s] | _ \<Rightarrow> []) tr)"

definition recvd_before_CmdWait :: "event list \<Rightarrow> string list" where
  "recvd_before_CmdWait tr = recvd (takeWhile (\<lambda>e. e \<noteq> CmdWait) tr)"

definition recvd_after_CmdWait :: "event list \<Rightarrow> string list" where
  "recvd_after_CmdWait tr = recvd (dropWhile (\<lambda>e. e \<noteq> CmdWait) tr)"

text \<open>The stream-capture closures among the registered ones.\<close>

definition stream_tasks :: "T \<Rightarrow> task list" where
  "stream_tasks t = filter (\<lambda>k. k \<noteq> CtxTask) (goroutine t)"

text \<open>The struct \<open>Run\<close> leaves behind, when it returns.\<close>

definition after_Run :: "os_reply \<Rightarrow> process \<Rightarrow> T \<Rightarrow> T option" where
  "after_Run os p t = (case Run os p t of Returns (_, t') \<Rightarrow> Some t' | _ \<Rightarrow> None)"

text \<open>An operating system that refuses nothing, and a subprocess like \<open>echo\<close> with no
  argument: one empty line on stdout, exit code 0.\<close>

definition os_ok :: os_reply where
  "os_ok = \<lparr>valid_err = None, update_err = None, stdoutPipe_err = None,
            stderrPipe_err = None, start_err = None, process_pid = 4242\<rparr>"

definition echo_empty :: process where
  "echo_empty = \<lparr>out_lines = [[]], err_lines = [], wait_err = None\<rparr>"

section \<open>Package object: the start action of one object\<close>

text \<open>
  A \<open>resource.Driver\<close> as the start action sees it. The drivers are not part of this
  package, so a driver is what its methods answer when the action calls them:
  \<open>Aborter\<close> is \<open>None\<close> when the driver does not implement \<open>resource.Aborter\<close> and
  \<open>Some b\<close> when its \<open>Abort()\<close> returns \<open>b\<close>; \<open>DriverStart\<close> is the error of its
  \<open>Start()\<close> (\<open>None\<close> is \<open>nil\<close>). The list \<open>rs\<close> below is \<open>t.listResources()\<close>.
\<close>

record Driver =
  RID :: string
  Aborter :: "bool option"
  DriverStart :: "string option"

datatype obj_event =
  LogDebug string
  | LogError string string
  | LogInfo string string
  | CallAbort Driver
  | CallStart Driver
  | SendVote bool
  | RecvVote bool

subsection \<open>abortStart: the vote goroutines and the collection loop\<close>

text \<open>
  \<open>abortStart\<close> runs one goroutine per resource beside its own. A goroutine of
  \<open>abortWorker\<close> is spawned, then holds its vote (after the type assertion and the call
  of \<open>Abort\<close>), then has sent it on \<open>q\<close>, then has run the deferred \<open>wg.Done\<close>.
  The caller ranges over the resources spawning workers, blocks in \<open>wg.Wait\<close>, runs the
  collection loop (\<open>Collecting k ret\<close>: \<open>k\<close> iterations done, \<open>ret\<close> so far), and
  returns.
\<close>

datatype worker_pc = Spawned | Voting bool | Sent | Exited

datatype main_pc = Spawning nat | Waiting | Collecting nat bool | Finished "string option"

record abort_state =
  main :: main_pc
  workers :: "worker_pc list"
  q :: "bool list"
  q_cap :: nat
  wg :: nat
  trace :: "obj_event list"

text \<open>The state after \<open>q := make(chan bool, len(t.listResources()))\<close>.\<close>

definition abort_init :: "Driver list \<Rightarrow> abort_state" where
  "abort_init rs =
     \<lparr>main = Spawning 0, workers = [], q = [], q_cap = length rs, wg = 0,
      trace = [LogDebug ''abort start check'']\<rparr>"

text \<open>
  One step of the caller; \<open>None\<close> when it cannot move (blocked in \<open>wg.Wait\<close> or in a
  receive, or returned). In \<open>ret = ret || <-q\<close> the receive is the right operand of
  \<open>||\<close>: Go evaluates it only when \<open>ret\<close> is still false.
\<close>

definition main_step :: "Driver list \<Rightarrow> abort_state \<Rightarrow> abort_state option" where
  "main_step rs s =
     (case main s of
        Spawning k \<Rightarrow>
          (if k < length rs
           then Some (s\<lparr>main := Spawning (Suc k), workers := workers s @ [Spawned],
                        wg := wg s + 1\<rparr>)
           else Some (s\<lparr>main := Waiting\<rparr>))
      | Waiting \<Rightarrow> (if wg s = 0 then Some (s\<lparr>main := Collecting 0 False\<rparr>) else None)
      | Collecting k ret \<Rightarrow>
          (if k < length rs
           then (if ret then Some (s\<lparr>main := Collecting (Suc k) True\<rparr>)
                 else (case q s of
                         [] \<Rightarrow> None
                       | v # vs \<Rightarrow>
                           Some (s\<lparr>main := Collecting (Suc k) v, q := vs,
                                   trace := trace s @ [RecvVote v]\<rparr>)))
           else Some (s\<lparr>main := Finished (if ret then Some ''abort start'' else None)\<rparr>))
      | Finished e \<Rightarrow> None)"

text \<open>
  One step of the goroutine \<open>abortWorker(rs ! i, q, &wg)\<close>; \<open>None\<close> when it cannot move
  (not spawned, blocked in the send because \<open>q\<close> is full, or exited).
\<close>

definition abortWorker :: "Driver list \<Rightarrow> nat \<Rightarrow> abort_state \<Rightarrow> abort_state option" where
  "abortWorker rs i s =
     (if i < length (workers s) \<and> i < length rs
      then (case workers s ! i of
              Spawned \<Rightarrow>
                (case Aborter (rs ! i) of
                   None \<Rightarrow> Some (s\<lparr>workers := (workers s)[i := Voting False]\<rparr>)
                 | Some a \<Rightarrow>
                     Some (s\<lparr>workers := (workers s)[i := Voting a],
                             trace := trace s @ CallAbort (rs ! i)
                               # (if a then [LogError (RID (rs ! i)) ''abort start''] else [])\<rparr>))
            | Voting v \<Rightarrow>
                (if length (q s) < q_cap s
                 then Some (s\<lparr>workers := (workers s)[i := Sent], q := q s @ [v],
                              trace := trace s @ [SendVote v]\<rparr>)
                 else None)
            | Sent \<Rightarrow> Some (s\<lparr>workers := (workers s)[i := Exited], wg := wg s - 1\<rparr>)
            | Exited \<Rightarrow> None)
      else None)"

text \<open>Thread 0 is the caller, thread \<open>Suc i\<close> the worker of resource \<open>i\<close>.\<close>

definition abort_step :: "Driver list \<Rightarrow> nat \<Rightarrow> abort_state \<Rightarrow> abort_state option" where
  "abort_step rs k s = (case k of 0 \<Rightarrow> main_step rs s | Suc i \<Rightarrow> abortWorker rs i s)"

definition enabled :: "Driver list \<Rightarrow> abort_state \<Rightarrow> nat list" where
  "enabled rs s = filter (\<lambda>k. abort_step rs k s \<noteq> None) [0..<Suc (length (workers s))]"

definition next_state :: "Driver list \<Rightarrow> nat \<Rightarrow> abort_state \<Rightarrow> abort_state" where
  "next_state rs k s = (case abort_step rs k s of Some s' \<Rightarrow> s' | None \<Rightarrow> s)"

text \<open>
  The number of steps a worker, and the caller, still have before them; every step
  lowers the sum by one, which bounds every run.
\<close>

fun worker_rank :: "worker_pc \<Rightarrow> nat" where
  "worker_rank Spawned = 3"
| "worker_rank (Voting v) = 2"
| "worker_rank Sent = 1"
| "worker_rank Exited = 0"

fun main_rank :: "nat \<Rightarrow> main_pc \<Rightarrow> nat" where
  "main_rank n (Spawning k) = 4 * (n - k) + n + 3"
| "main_rank n Waiting = n + 2"
| "main_rank n (Collecting k ret) = (n - k) + 1"
| "main_rank n (Finished e) = 0"

definition rank :: "Driver list \<Rightarrow> abort_state \<Rightarrow> nat" where
  "rank rs s = main_rank (length rs) (main s) + sum_list (map worker_rank (workers s))"

text \<open>The states a run can reach, whatever the scheduler does.\<close>

inductive reachable :: "Driver list \<Rightarrow> abort_state \<Rightarrow> bool" for rs where
  init: "reachable rs (abort_init rs)"
| step: "reachable rs s \<Longrightarrow> abort_step rs k s = Some s' \<Longrightarrow> reachable rs s'"

lemma sum_list_worker_rank_update:
  "i < length ws \<Longrightarrow> worker_rank w < worker_rank (ws ! i) \<Longrightarrow>
   sum_list (map worker_rank (ws[i := w])) < sum_list (map worker_rank ws)"
proof (induction ws arbitrary: i)
  case Nil
  then show ?case by simp
next
  case (Cons a ws)
  then show ?case by (cases i) auto
qed

lemma main_step_rank: "main_step rs s = Some s' \<Longrightarrow> rank rs s' < rank rs s"
  by (auto simp: main_step_def rank_def split: main_pc.splits if_splits list.splits)

lemma abortWorker_rank: "abortWorker rs i s = Some s' \<Longrightarrow> rank rs s' < rank rs s"
  by (auto simp: abortWorker_def rank_def sum_list_worker_rank_update
      split: worker_pc.splits if_splits option.splits)

lemma abort_step_rank: "abort_step rs k s = Some s' \<Longrightarrow> rank rs s' < rank rs s"
  by (auto simp: abort_step_def main_step_rank abortWorker_rank split: nat.splits)

lemma enabled_step: "k \<in> set (enabled rs s) \<Longrightarrow> \<exists>s'. abort_step rs k s = Some s'"
  by (auto simp: enabled_def simp del: upt_Suc)

lemma next_state_rank: "k \<in> set (enabled rs s) \<Longrightarrow> rank rs (next_state rs k s) < rank rs s"
  using enabled_step[of k rs s] abort_step_rank[of rs k s] by (auto simp: next_state_def)

text \<open>
  A run under a scheduler. While some thread can move, the scheduler's next choice picks
  one of the threads that can (any of them: every interleaving is the run of some list
  of choices); once the choices are used up the first such thread moves. The run ends
  when no thread can move.
\<close>

function run_abort :: "Driver list \<Rightarrow> nat list \<Rightarrow> abort_state \<Rightarrow> abort_state" where
  "run_abort rs sched s =
     (if enabled rs s = [] then s
      else (case sched of
              [] \<Rightarrow> run_abort rs [] (next_state rs (hd (enabled rs s)) s)
            | c # cs \<Rightarrow>
                run_abort rs cs
                  (next_state rs (enabled rs s ! (c mod length (enabled rs s))) s)))"
  by pat_completeness auto
termination
  by (relation "measure (\<lambda>(rs, sched, s). rank rs s)") (auto intro!: next_state_rank)

declare run_abort.simps [simp del]

text \<open>The options of the start action; no function below reads them.\<close>

record OptsStart =
  Force :: bool

text \<open>
  \<open>abortStart\<close> returns the error the caller's goroutine ends with, or never returns
  when the run ends with the caller still blocked.
\<close>

definition abortStart ::
  "OptsStart \<Rightarrow> nat list \<Rightarrow> Driver list \<Rightarrow> (string option \<times> obj_event list, string) outcome" where
  "abortStart options sched rs =
     (let s = run_abort rs sched (abort_init rs)
      in case main s of Finished e \<Rightarrow> Returns (e, trace s) | _ \<Rightarrow> Blocks)"

fun masterStart :: "OptsStart \<Rightarrow> Driver list \<Rightarrow> string option \<times> obj_event list" where
  "masterStart options [] = (None, [])"
| "masterStart options (r # rs) =
     (case DriverStart r of
        Some err \<Rightarrow> (Some err, [LogInfo (RID r) ''start'', CallStart r])
      | None \<Rightarrow>
          (case masterStart options rs of
             (e, tr) \<Rightarrow> (e, LogInfo (RID r) ''start'' # CallStart r # tr)))"

definition slaveStart :: "OptsStart \<Rightarrow> Driver list \<Rightarrow> string option" where
  "slaveStart options rs = None"

definition lockedStart ::
  "OptsStart \<Rightarrow> nat list \<Rightarrow> Driver list \<Rightarrow> (string option \<times> obj_event list, string) outcome" where
  "lockedStart options sched rs =
     (case abortStart options sched rs of
        Blocks \<Rightarrow> Blocks
      | Panics p \<Rightarrow> Panics p
      | Returns (Some err, tr) \<Rightarrow> Returns (Some err, tr)
      | Returns (None, tr) \<Rightarrow>
          (case masterStart options rs of
             (Some err, tr') \<Rightarrow> Returns (Some err, tr @ tr')
           | (None, tr') \<Rightarrow>
               (case slaveStart options rs of
                  Some err \<Rightarrow> Returns (Some err, tr @ tr')
                | None \<Rightarrow> Returns (None, tr @ tr'))))"

text \<open>The drivers whose \<open>Start\<close> was called, and the votes received, in order.\<close>

definition started_drivers :: "obj_event list \<Rightarrow> Driver list" where
  "started_drivers tr = concat (map (\<lambda>e. case e of CallStart r \<Rightarrow> [r] | _ \<Rightarrow> []) tr)"

definition votes_received :: "obj_event list \<Rightarrow> bool list" where
  "votes_received tr = concat (map (\<lambda>e. case e of RecvVote v \<Rightarrow> [v] | _ \<Rightarrow> []) tr)"

text \<open>The vote of a driver: true only when it implements \<open>Aborter\<close> and \<open>Abort\<close> says so.\<close>

definition vote :: "Driver \<Rightarrow> bool" where
  "vote r \<longleftrightarrow> Aborter r = Some True"

section \<open>Package object: the selection dispatcher\<close>

record Path =
  Name :: string
  Namespace :: string
  Kind :: string

text \<open>
  Modelled from the spec: the struct \<open>ActionResult\<close> is declared in a file that is not
  at hand; it carries the object path, the returned value, an error and, apart from the
  error, the payload of a recovered panic. \<open>None\<close> is a \<open>nil\<close> field.
\<close>

record ActionResult =
  Path :: Path
  Data :: "string option"
  Error :: "string option"
  Panic :: "string option"

text \<open>
  What \<open>reflect\<close> sees of an object: \<open>MethodByName\<close> finds a method or the zero
  \<open>Value\<close> (\<open>None\<close>); calling a method on the arguments returns its values, panics
  (also when \<open>reflect\<close> rejects the arguments) or never returns. The value of a panic is
  what \<open>recover()\<close> returns in the deferred function: \<open>Some r\<close> for a value that is
  not nil, \<open>None\<close> for the nil value of \<open>panic(nil)\<close> (or of \<open>panic(err)\<close> with a nil
  \<open>err\<close>), which \<open>recover()\<close> hands back as nil. The panics of the runtime and of
  \<open>reflect\<close> carry an error value that is not nil.
\<close>

datatype rvalue = ActionResultValue ActionResult | OtherValue string

type_synonym 'a reflect_method = "'a list \<Rightarrow> (rvalue list, string option) outcome"

type_synonym 'a object = "string \<Rightarrow> 'a reflect_method option"

text \<open>
  The client: \<open>Requester\<close> is \<open>None\<close> for \<open>nil\<close>, else what \<open>handle.Do()\<close> answers
  for a selector expression, an error (\<open>Inl\<close>) or the bytes of the reply.
\<close>

record API =
  Requester :: "(string \<Rightarrow> string + string) option"

record Selection =
  SelectorExpression :: string
  API :: API

text \<open>
  \<open>unmarshal b l\<close> is the slice \<open>json.Unmarshal(b, &l)\<close> leaves in \<open>l\<close>; its error is
  dropped by the code.
\<close>

definition daemonExpand ::
  "(string \<Rightarrow> Path slice \<Rightarrow> Path slice) \<Rightarrow> Selection \<Rightarrow> Path slice \<times> string option" where
  "daemonExpand unmarshal t =
     (case Requester (API t) of
        None \<Rightarrow> (Some [], None)
      | Some do \<Rightarrow>
          (case do (SelectorExpression t) of
             Inl err \<Rightarrow> (None, Some err)
           | Inr b \<Rightarrow> (unmarshal b (Some []), None)))"

definition Expand :: "(string \<Rightarrow> Path slice \<Rightarrow> Path slice) \<Rightarrow> Selection \<Rightarrow> Path slice" where
  "Expand unmarshal t =
     (case daemonExpand unmarshal t of
        (l, Some err) \<Rightarrow> Some []
      | (l, None) \<Rightarrow> l)"

text \<open>
  The loop over the paths: a path with no object (\<open>NewObject\<close> returns \<open>nil\<close>) is
  passed over, every other one gets a goroutine for the method \<open>MethodByName\<close> found.
\<close>

definition spawned ::
  "(Path \<Rightarrow> 'a object option) \<Rightarrow> string \<Rightarrow> Path list \<Rightarrow> (Path \<times> 'a reflect_method option) list" where
  "spawned newObject action paths =
     concat (map (\<lambda>path. case newObject path of
                            None \<Rightarrow> []
                          | Some obj \<Rightarrow> [(path, obj action)]) paths)"

text \<open>\<open>fn.Call(fa)[0].Interface().(ActionResult)\<close>, panics included.\<close>

definition call_result ::
  "'a reflect_method option \<Rightarrow> 'a list \<Rightarrow> (ActionResult, string option) outcome" where
  "call_result fn fa =
     (case fn of
        None \<Rightarrow> Panics (Some ''reflect: call of reflect.Value.Call on zero Value'')
      | Some m \<Rightarrow>
          (case m fa of
             Blocks \<Rightarrow> Blocks
           | Panics r \<Rightarrow> Panics r
           | Returns vs \<Rightarrow>
               (case vs of
                  [] \<Rightarrow> Panics (Some ''runtime error: index out of range [0] with length 0'')
                | v # _ \<Rightarrow>
                    (case v of
                       ActionResultValue res \<Rightarrow> Returns res
                     | OtherValue _ \<Rightarrow>
                         Panics (Some ''interface conversion: interface {} is not object.ActionResult'')))))"

text \<open>
  What one goroutine sends on \<open>q\<close>: the returned result; or, when the call panics, what
  the deferred function sends, which is the result built around \<open>r := recover()\<close> if
  \<open>r != nil\<close> and nothing if \<open>r\<close> is nil; or nothing when the call never returns.
\<close>

definition action_task :: "Path \<Rightarrow> 'a reflect_method option \<Rightarrow> 'a list \<Rightarrow> ActionResult list" where
  "action_task path fn fa =
     (case call_result fn fa of
        Returns res \<Rightarrow> [res]
      | Panics r \<Rightarrow>
          (if r \<noteq> None then [\<lparr>Path = path, Data = None, Error = None, Panic = r\<rparr>] else [])
      | Blocks \<Rightarrow> [])"

text \<open>
  The order in which sent values reach the collection loop is the scheduler's: each
  choice picks one of the values not yet delivered; when the choices are used up the
  rest arrives in spawn order.
\<close>

fun deliver :: "nat list \<Rightarrow> 'a list \<Rightarrow> 'a list" where
  "deliver [] xs = xs"
| "deliver (c # cs) xs =
     (if xs = [] then []
      else xs ! (c mod length xs)
             # deliver cs (take (c mod length xs) xs @ drop (Suc (c mod length xs)) xs))"

text \<open>
  \<open>Action\<close>. Every goroutine sends at most once, into a channel with room for one
  value per path, so no send waits; the collection loop receives \<open>started\<close> values and
  never returns when fewer are sent.
\<close>

definition Action ::
  "(Path \<Rightarrow> 'a object option) \<Rightarrow> (string \<Rightarrow> Path slice \<Rightarrow> Path slice) \<Rightarrow> Selection
     \<Rightarrow> string \<Rightarrow> 'a list \<Rightarrow> nat list \<Rightarrow> (ActionResult list, string) outcome" where
  "Action newObject unmarshal t action fa sched =
     (let paths = elems (Expand unmarshal t);
          tasks = spawned newObject action paths;
          started = length tasks;
          sent = concat (map (\<lambda>(path, fn). action_task path fn fa) tasks)
      in if length sent < started then Blocks
         else Returns (take started (deliver sched sent)))"

text \<open>
  The result one path of the selection contributes: none when it has no object, when its
  call never returns or when its call panics with the nil value, else the returned
  result or the one built around the value of the panic.
\<close>

definition task_result ::
  "(Path \<Rightarrow> 'a object option) \<Rightarrow> string \<Rightarrow> 'a list \<Rightarrow> Path \<Rightarrow> ActionResult option" where
  "task_result newObject action fa path =
     (case newObject path of
        None \<Rightarrow> None
      | Some obj \<Rightarrow>
          (case call_result (obj action) fa of
             Returns res \<Rightarrow> Some res
           | Panics r \<Rightarrow>
               (if r \<noteq> None then Some \<lparr>Path = path, Data = None, Error = None, Panic = r\<rparr>
                else None)
           | Blocks \<Rightarrow> None))"


section \<open>Package statusbus\<close>

text \<open>
  Modelled from the spec: the status bus itself (its \<open>Start\<close>, \<open>Stop\<close>, \<open>Post\<close> and
  \<open>Get\<close>) is not at hand, only its test. The bus maps (object path, resource id) to the
  last posted status, an absent key reads \<open>Undef\<close>; it is stopped or started; \<open>Post\<close>
  and \<open>Get\<close> on a stopped bus and \<open>Start\<close> on a started one fail fast (the test expects
  the panics \<open>ErrorNeedStart\<close> and \<open>ErrorStarted\<close>); \<open>Stop\<close> releases the cache and is
  safe on a stopped bus. The zero value \<open>T{}\<close> is a stopped bus.
\<close>

datatype status = Undef | Up | Down | Warn | StandbyUp | StandbyDown | NotApplicable

datatype bus_error = ErrorNeedStart | ErrorStarted

record bus =
  bus_started :: bool
  statuses :: "Path \<times> string \<Rightarrow> status option"

definition zero_bus :: bus where
  "zero_bus = \<lparr>bus_started = False, statuses = Map.empty\<rparr>"

definition statusbus_Start :: "bus \<Rightarrow> (bus, bus_error) outcome" where
  "statusbus_Start b =
     (if bus_started b then Panics ErrorStarted
      else Returns (b\<lparr>bus_started := True, statuses := Map.empty\<rparr>))"

definition statusbus_Stop :: "bus \<Rightarrow> bus" where
  "statusbus_Stop b = b\<lparr>bus_started := False, statuses := Map.empty\<rparr>"

definition statusbus_Post :: "bus \<Rightarrow> Path \<Rightarrow> string \<Rightarrow> status \<Rightarrow> bool \<Rightarrow> (bus, bus_error) outcome" where
  "statusbus_Post b p rid st pending =
     (if \<not> bus_started b then Panics ErrorNeedStart
      else Returns (b\<lparr>statuses := (statuses b)((p, rid) \<mapsto> st)\<rparr>))"

definition statusbus_Get :: "bus \<Rightarrow> Path \<Rightarrow> string \<Rightarrow> (status, bus_error) outcome" where
  "statusbus_Get b p rid =
     (if \<not> bus_started b then Panics ErrorNeedStart
      else Returns (case statuses b (p, rid) of None \<Rightarrow> Undef | Some st \<Rightarrow> st))"

section \<open>Concrete runs used below\<close>

text \<open>
  A command with buffered stdout, logged stderr and a deadline of five seconds, before
  and after \<open>Start\<close>.
\<close>

definition both_streams_5s :: T where
  "both_streams_5s =
     New\<lparr>bufferStdout := True, stderrLogLevel := ErrorLevel, timeout := 5000000000\<rparr>"

definition both_streams_5s_started :: T where
  "both_streams_5s_started =
     New\<lparr>bufferStdout := True, stderrLogLevel := ErrorLevel, timeout := 5000000000,
         cmd := True, pid := 4242, done_chan := Some 3,
         goroutine := [StdoutTask, StderrTask, CtxTask], cancel := True\<rparr>"

text \<open>Three drivers: a disk that vetoes the start, an app with no \<open>Abort\<close> method whose
  \<open>Start\<close> fails, and a file system that neither vetoes nor fails.\<close>

definition veto_disk :: Driver where
  "veto_disk = \<lparr>RID = ''disk#0'', Aborter = Some True, DriverStart = None\<rparr>"

definition plain_app :: Driver where
  "plain_app = \<lparr>RID = ''app#1'', Aborter = None, DriverStart = Some ''exit status 1''\<rparr>"

definition ok_fs :: Driver where
  "ok_fs = \<lparr>RID = ''fs#2'', Aborter = Some False, DriverStart = None\<rparr>"

definition two_resources :: "Driver list" where
  "two_resources = [veto_disk, plain_app]"

definition four_resources :: "Driver list" where
  "four_resources = [ok_fs, ok_fs\<lparr>RID := ''fs#3''\<rparr>, plain_app, veto_disk]"

text \<open>The abort check of \<open>two_resources\<close> with both workers spawned and the second one
  holding its vote.\<close>

definition mid_vote_state :: abort_state where
  "mid_vote_state =
     \<lparr>main = Spawning 2, workers = [Spawned, Voting False], q = [], q_cap = 2, wg = 2,
      trace = [LogDebug ''abort start check'']\<rparr>"

text \<open>
  A selection for the dispatcher: two services and a path of a kind that has no object.
  The one object kind has a single method \<open>Start\<close>, which returns a result without
  error for \<open>svc1\<close> and panics for any other path.
\<close>

definition svc1 :: Path where
  "svc1 = \<lparr>Name = ''svc1'', Namespace = ''root'', Kind = ''svc''\<rparr>"

definition svc2 :: Path where
  "svc2 = \<lparr>Name = ''svc2'', Namespace = ''root'', Kind = ''svc''\<rparr>"

definition odd1 :: Path where
  "odd1 = \<lparr>Name = ''odd1'', Namespace = ''root'', Kind = ''unknown''\<rparr>"

definition svc_object :: "Path \<Rightarrow> string object" where
  "svc_object p action =
     (if action = ''Start''
      then Some (\<lambda>fa. if p = svc1
                       then Returns [ActionResultValue
                                       \<lparr>Path = p, Data = None, Error = None, Panic = None\<rparr>]
                       else Panics (Some ''nil map''))
      else None)"



definition newObject_by_kind :: "Path \<Rightarrow> string object option" where
  "newObject_by_kind p = (if Kind p = ''svc'' then Some (svc_object p) else None)"

definition selection_of :: "(string + string) \<Rightarrow> Selection" where
  "selection_of reply = \<lparr>SelectorExpression = ''*'', API = \<lparr>Requester = Some (\<lambda>sel. reply)\<rparr>\<rparr>"

definition unmarshal_to :: "Path list \<Rightarrow> string \<Rightarrow> Path slice \<Rightarrow> Path slice" where
  "unmarshal_to ps b l = Some ps"

definition two_svc :: Selection where
  "two_svc = selection_of (Inr ''[\"svc1\", \"svc2\"]'')"

section \<open>The invariant of the abort check\<close>

text \<open>Whether a worker has sent its vote, and whether it still holds the wait group.\<close>

fun has_sent :: "worker_pc \<Rightarrow> nat" where
  "has_sent Sent = 1"
| "has_sent Exited = 1"
| "has_sent _ = 0"

fun alive :: "worker_pc \<Rightarrow> nat" where
  "alive Exited = 0"
| "alive _ = 1"

definition voted_true :: "Driver list \<Rightarrow> worker_pc list \<Rightarrow> bool" where
  "voted_true rs ws \<longleftrightarrow> (\<exists>i<length ws. has_sent (ws ! i) = 1 \<and> vote (rs ! i))"

definition votes_ok :: "Driver list \<Rightarrow> worker_pc list \<Rightarrow> bool" where
  "votes_ok rs ws \<longleftrightarrow> (\<forall>i<length ws. \<forall>v. ws ! i = Voting v \<longrightarrow> v = vote (rs ! i))"

text \<open>
  What holds in each phase of the caller. While workers run, the channel holds one vote
  per worker that has sent. Once \<open>wg.Wait\<close> has returned every worker has exited; as
  long as \<open>ret\<close> is false the loop has received one vote per iteration and the channel
  holds the others; the votes received are false ones, followed by a true one exactly
  when \<open>ret\<close> is true.
\<close>

definition phase_inv :: "Driver list \<Rightarrow> abort_state \<Rightarrow> bool" where
  "phase_inv rs s =
     (let n = length rs; ws = workers s; vr = votes_received (trace s) in
      case main s of
        Spawning k \<Rightarrow>
          k = length ws \<and> length (q s) = sum_list (map has_sent ws) \<and> vr = [] \<and>
          (True \<in> set (q s) \<longleftrightarrow> voted_true rs ws)
      | Waiting \<Rightarrow>
          length ws = n \<and> length (q s) = sum_list (map has_sent ws) \<and> vr = [] \<and>
          (True \<in> set (q s) \<longleftrightarrow> voted_true rs ws)
      | Collecting k ret \<Rightarrow>
          length ws = n \<and> wg s = 0 \<and> k \<le> n \<and> (\<not> ret \<longrightarrow> length (q s) = n - k) \<and>
          ((ret \<or> True \<in> set (q s)) \<longleftrightarrow> (\<exists>r\<in>set rs. vote r)) \<and>
          length vr \<le> k \<and> (\<not> ret \<longrightarrow> length vr = k) \<and>
          (ret \<longleftrightarrow> True \<in> set vr) \<and> True \<notin> set (butlast vr)
      | Finished e \<Rightarrow>
          length ws = n \<and> wg s = 0 \<and>
          (e = Some ''abort start'' \<longleftrightarrow> (\<exists>r\<in>set rs. vote r)) \<and>
          (e = None \<or> e = Some ''abort start'') \<and>
          length vr \<le> n \<and> (e = None \<longrightarrow> length vr = n) \<and>
          (e \<noteq> None \<longleftrightarrow> True \<in> set vr) \<and> True \<notin> set (butlast vr))"

definition abort_inv :: "Driver list \<Rightarrow> abort_state \<Rightarrow> bool" where
  "abort_inv rs s \<longleftrightarrow>
     q_cap s = length rs \<and> length (workers s) \<le> length rs \<and>
     wg s = sum_list (map alive (workers s)) \<and>
     votes_ok rs (workers s) \<and>
     started_drivers (trace s) = [] \<and>
     phase_inv rs s"

section \<open>Properties of the process executor\<close>

lemma len_simps [simp]: "len None = 0" "len (Some xs) = length xs"
  by (simp_all add: len_def)

lemma elems_simps [simp]: "elems None = []" "elems (Some xs) = xs"
  by (simp_all add: elems_def)

lemma stripFistByte_short: "len b \<le> 1 \<Longrightarrow> stripFistByte b = b"
  by (simp add: stripFistByte_def)

lemma stripFistByte_long: "2 \<le> len b \<Longrightarrow> stripFistByte b = Some (tl (elems b))"
  by (simp add: stripFistByte_def drop_Suc)

lemmas run_defs = Run_def Start_def os_ok_def New_def wants_stdout_def wants_stderr_def
  register_stdout_def register_stderr_def register_ctx_def launch_def
  run_task_def stdout_task_def stdout_line_def stderr_task_def stderr_line_def
  echo_empty_def append_slice_def signals_def
  Wait_def waitCount_def received_def recv_events_def after_Run_def

lemma after_Run_echo_empty:
  "after_Run os_ok echo_empty (New\<lparr>bufferStdout := True\<rparr>) =
     Some (New\<lparr>bufferStdout := True, cmd := True, pid := 4242, done_chan := Some 1,
               goroutine := [StdoutTask], stdout := Some [CHR 0x0A]\<rparr>)"
  by (simp add: run_defs)

text \<open>
  C9. A buffer of at most one byte (the nil buffer of a stream that was not buffered, or
  the lone newline left by one empty line) comes back from \<open>Stdout\<close> and \<open>Stderr\<close> as
  it is; a buffer of two bytes or more comes back without its first byte. So the first
  byte is stripped only from a buffer of at least two bytes.
\<close>

theorem Stdout_Stderr_strip_only_from_two_bytes:
  "(len (stdout t) \<le> 1 \<longrightarrow> Stdout t = stdout t) \<and>
   (len (stderr t) \<le> 1 \<longrightarrow> Stderr t = stderr t) \<and>
   (2 \<le> len (stdout t) \<longrightarrow> Stdout t = Some (tl (elems (stdout t)))) \<and>
   (2 \<le> len (stderr t) \<longrightarrow> Stderr t = Some (tl (elems (stderr t))))"
  unfolding Stdout_def Stderr_def
  using stripFistByte_short stripFistByte_long by blast

theorem Stdout_Stderr_strip_only_from_two_bytes_witness:
  "len (stdout (the (after_Run os_ok echo_empty (New\<lparr>bufferStdout := True\<rparr>)))) \<le> 1 \<and>
   Stdout (the (after_Run os_ok echo_empty (New\<lparr>bufferStdout := True\<rparr>))) = Some [CHR 0x0A] \<and>
   len (stderr New) \<le> 1 \<and> Stderr New = None \<and>
   2 \<le> len (stdout (New\<lparr>stdout := Some ''XYZ''\<rparr>)) \<and>
   Stdout (New\<lparr>stdout := Some ''XYZ''\<rparr>) = Some ''YZ'' \<and>
   2 \<le> len (stderr (New\<lparr>stderr := Some ''XYZ''\<rparr>)) \<and>
   Stderr (New\<lparr>stderr := Some ''XYZ''\<rparr>) = Some ''YZ''"
  using Stdout_Stderr_strip_only_from_two_bytes
          [of "the (after_Run os_ok echo_empty (New\<lparr>bufferStdout := True\<rparr>))"]
        Stdout_Stderr_strip_only_from_two_bytes [of New]
        Stdout_Stderr_strip_only_from_two_bytes [of "New\<lparr>stdout := Some ''XYZ''\<rparr>"]
        Stdout_Stderr_strip_only_from_two_bytes [of "New\<lparr>stderr := Some ''XYZ''\<rparr>"]
  by (simp add: after_Run_echo_empty) (simp add: New_def)

subsection \<open>The buffered output against the lines written\<close>

lemma stdout_fold:
  "bufferStdout t \<Longrightarrow>
   elems (stdout (fst (foldl (\<lambda>s l. stdout_line l s) (t, tr) ls)))
     = elems (stdout t) @ concat (map (\<lambda>l. CHR 0x0A # l) ls)"
proof (induction ls arbitrary: t tr)
  case Nil
  then show ?case by simp
next
  case (Cons l ls)
  have "bufferStdout (fst (stdout_line l (t, tr)))"
    using Cons.prems by (simp add: stdout_line_def)
  from Cons.IH[OF this, of "snd (stdout_line l (t, tr))"] Cons.prems
  show ?case by (simp add: stdout_line_def append_slice_def split: option.splits)
qed

lemma drop1_prefixed: "ls \<noteq> [] \<Longrightarrow> drop 1 (concat (map (\<lambda>l. CHR 0x0A # l) ls)) = join_lines ls"
proof (induction ls rule: join_lines.induct)
  case 1
  then show ?case by simp
next
  case (2 l)
  then show ?case by simp
next
  case (3 l v va)
  then show ?case by simp
qed

lemma stderr_line_stdout: "stdout (fst (stderr_line l st)) = stdout (fst st)"
  by (cases st) (simp add: stderr_line_def)

lemma stderr_task_stdout: "stdout (fst (stderr_task ls st)) = stdout (fst st)"
proof -
  have "stdout (fst (foldl (\<lambda>s l. stderr_line l s) st ls)) = stdout (fst st)"
    by (induction ls arbitrary: st) (simp_all add: stderr_line_stdout)
  then show ?thesis by (auto simp: stderr_task_def split: prod.splits)
qed

lemma other_tasks_stdout:
  "StdoutTask \<notin> set ks \<Longrightarrow>
   stdout (fst (foldl (\<lambda>s k. run_task p k s) st ks)) = stdout (fst st)"
proof (induction ks arbitrary: st)
  case Nil
  then show ?case by simp
next
  case (Cons k ks)
  then show ?case by (cases k) (simp_all add: run_task_def stderr_task_stdout)
qed

lemma stdout_task_stdout:
  "bufferStdout t \<Longrightarrow>
   elems (stdout (fst (stdout_task ls (t, tr))))
     = elems (stdout t) @ concat (map (\<lambda>l. CHR 0x0A # l) ls)"
  using stdout_fold[of t tr ls] by (auto simp: stdout_task_def split: prod.splits)

lemma strip_prefixed:
  assumes "elems b = concat (map (\<lambda>l. CHR 0x0A # l) ls)" "ls \<noteq> [[]]"
  shows "elems (stripFistByte b) = join_lines ls"
proof (cases "1 < len b")
  case True
  then have "ls \<noteq> []" using assms(1) by (auto simp: len_def elems_def split: option.splits)
  then show ?thesis using True assms(1) drop1_prefixed[of ls] by (simp add: stripFistByte_def)
next
  case False
  then have "length (concat (map (\<lambda>l. CHR 0x0A # l) ls)) \<le> 1"
    using assms(1) by (auto simp: len_def elems_def split: option.splits)
  then have "ls = []" using assms(2)
    by (cases ls) (auto simp: neq_Nil_conv)
  then show ?thesis using False assms(1) by (simp add: stripFistByte_def)
qed

lemmas start_defs = Start_def launch_def wants_stdout_def wants_stderr_def
  register_stdout_def register_stderr_def register_ctx_def Let_def

lemma Start_fresh_goroutine:
  assumes "goroutine t0 = []" "Start os t0 = (None, t)"
  shows "goroutine t = (if wants_stdout t0 then [StdoutTask] else [])
                     @ (if wants_stderr t0 then [StderrTask] else [])
                     @ (if timeout t0 > 0 then [CtxTask] else [])"
  using assms by (auto simp: start_defs split: option.splits if_splits)

lemma Start_fresh_cancel:
  assumes "\<not> cancel t0" "Start os t0 = (None, t)"
  shows "cancel t \<longleftrightarrow> timeout t0 > 0"
  using assms by (auto simp: start_defs split: option.splits if_splits)

lemma Start_keeps:
  assumes "Start os t0 = (None, t)"
  shows "timeout t = timeout t0" "cmd t" "stdout t = stdout t0" "stderr t = stderr t0"
    "bufferStdout t = bufferStdout t0" "bufferStderr t = bufferStderr t0" "log t = log t0"
  using assms by (auto simp: start_defs split: option.splits if_splits)

lemma Start_done_chan:
  assumes "Start os t0 = (None, t)" "goroutine t \<noteq> []"
  shows "done_chan t = Some (length (goroutine t))"
  using assms by (auto simp: start_defs split: option.splits if_splits)

text \<open>
  Whenever the lines written on stdout are not the single empty line, \<open>Stdout\<close> after
  \<open>Run\<close> is exactly the lines joined by newlines.
\<close>

lemma Stdout_after_Run_joined:
  assumes fresh: "goroutine t0 = []" "stdout t0 = None"
    and buffered: "bufferStdout t0"
    and started: "Start os t0 = (None, t1)"
    and ran: "after_Run os p t0 = Some t'"
    and not_one_empty_line: "out_lines p \<noteq> [[]]"
  shows "elems (Stdout t') = join_lines (out_lines p)"
proof -
  obtain ks where g: "goroutine t1 = StdoutTask # ks" and ks: "StdoutTask \<notin> set ks"
    using Start_fresh_goroutine[OF fresh(1) started] buffered
    by (auto simp: wants_stdout_def)
  have b1: "bufferStdout t1" and s1: "stdout t1 = None"
    using Start_keeps[OF started] buffered fresh(2) by simp_all
  have t': "t' = fst (foldl (\<lambda>s k. run_task p k s) (t1, []) (goroutine t1))"
    using ran started
    by (auto simp: after_Run_def Run_def split: prod.splits outcome.splits)
  have "foldl (\<lambda>s k. run_task p k s) (t1, []) (StdoutTask # ks)
          = foldl (\<lambda>s k. run_task p k s) (stdout_task (out_lines p) (t1, [])) ks"
    by (simp add: run_task_def)
  then have "elems (stdout t') = concat (map (\<lambda>l. CHR 0x0A # l) (out_lines p))"
    unfolding t' g using b1 s1
    by (simp only: other_tasks_stdout[OF ks] stdout_task_stdout) simp
  then show ?thesis
    unfolding Stdout_def using not_one_empty_line by (rule strip_prefixed)
qed

text \<open>
  C5. The claim asks that \<open>Stdout\<close> after \<open>Run\<close> be the lines written, joined, with the
  sentinel stripped. For a subprocess that writes one empty line the joined lines are
  the empty sequence, yet \<open>Stdout\<close> is the sentinel newline itself: \<open>stripFistByte\<close>
  tests \<open>len(b) > 1\<close> and leaves a buffer of one byte alone.
\<close>

theorem Stdout_after_single_empty_line:
  "map_option (\<lambda>t. elems (Stdout t)) (after_Run os_ok echo_empty (New\<lparr>bufferStdout := True\<rparr>))
     = Some [CHR 0x0A] \<and>
   join_lines (out_lines echo_empty) = []"
  by (simp add: after_Run_echo_empty Stdout_def stripFistByte_def) (simp add: echo_empty_def)

subsection \<open>The signals Wait consumes\<close>

lemma Start_fresh_waitCount:
  assumes "goroutine t0 = []" "\<not> cancel t0" "Start os t0 = (None, t)"
  shows "waitCount t = int (length (stream_tasks t))"
  using Start_fresh_goroutine[OF assms(1,3)] Start_fresh_cancel[OF assms(2,3)]
  by (simp add: waitCount_def stream_tasks_def)

lemma recvd_recv_events: "recvd (recv_events t sigs) = sigs"
  by (induction sigs) (auto simp: recvd_def recv_events_def)

lemma CmdWait_notin_recv_events: "CmdWait \<notin> set (recv_events t sigs)"
  by (auto simp: recv_events_def)

lemma takeWhile_recv_events:
  "takeWhile (\<lambda>e. e \<noteq> CmdWait) (recv_events t sigs @ CmdWait # rest) = recv_events t sigs"
  by (subst takeWhile_append2) (auto simp: CmdWait_notin_recv_events)

lemma dropWhile_recv_events:
  "dropWhile (\<lambda>e. e \<noteq> CmdWait) (recv_events t sigs @ CmdWait # rest) = CmdWait # rest"
  by (subst dropWhile_append2) (auto simp: CmdWait_notin_recv_events)

lemma Wait_Returns_trace:
  assumes "Wait p arrivals t = Returns (e, tr)"
  shows "recvd_before_CmdWait tr = take (nat (waitCount t)) arrivals"
    and "int (length (recvd_before_CmdWait tr)) = max 0 (waitCount t)"
    and "recvd_after_CmdWait tr = []"
    and "CmdWait \<in> set tr"
    and "e = wait_err p"
proof -
  from assms have tr: "tr = recv_events t (take (nat (waitCount t)) arrivals)
                          @ CmdWait # (if cancel t then [CallCancel] else [])"
    and e: "e = wait_err p"
    and enough: "0 < waitCount t \<longrightarrow> waitCount t \<le> int (length arrivals)"
    by (auto simp: Wait_def received_def split: if_splits)
  show "recvd_before_CmdWait tr = take (nat (waitCount t)) arrivals"
    unfolding tr recvd_before_CmdWait_def takeWhile_recv_events by (rule recvd_recv_events)
  then show "int (length (recvd_before_CmdWait tr)) = max 0 (waitCount t)"
    using enough by auto
  show "recvd_after_CmdWait tr = []"
    unfolding tr recvd_after_CmdWait_def dropWhile_recv_events by (simp add: recvd_def)
  show "CmdWait \<in> set tr" unfolding tr by simp
  show "e = wait_err p" by (rule e)
qed

lemma Wait_Returns_if:
  assumes "cmd t" "goroutine t \<noteq> [] \<longrightarrow> done_chan t \<noteq> None" "waitCount t \<le> int (length arrivals)"
  shows "\<exists>tr. Wait p arrivals t = Returns (wait_err p, tr)"
  using assms by (auto simp: Wait_def waitCount_def split: if_splits)

text \<open>
  C6. After \<open>Start\<close> succeeded on a fresh command, \<open>Wait\<close> returns as soon as one signal
  per stream-capture task has arrived, and when it returns it has received exactly that
  many signals, all of them before it called \<open>cmd.Wait\<close> and none after: as many as
  there are registered tasks when no deadline is set, one less when the deadline task is
  among them.
\<close>

theorem Wait_consumes_one_signal_per_stream_task:
  assumes "goroutine t0 = []" and "\<not> cancel t0" and "Start os t0 = (None, t)"
  shows "(int (length (stream_tasks t)) \<le> int (length arrivals) \<longrightarrow>
            (\<exists>tr. Wait p arrivals t = Returns (wait_err p, tr))) \<and>
         (\<forall>e tr. Wait p arrivals t = Returns (e, tr) \<longrightarrow>
            recvd_before_CmdWait tr = take (length (stream_tasks t)) arrivals \<and>
            length (recvd_before_CmdWait tr) = length (stream_tasks t) \<and>
            CmdWait \<in> set tr \<and> recvd_after_CmdWait tr = [] \<and>
            (timeout t \<le> 0 \<longrightarrow> length (recvd_before_CmdWait tr) = length (goroutine t)) \<and>
            (0 < timeout t \<longrightarrow> CtxTask \<in> set (goroutine t) \<and>
               length (recvd_before_CmdWait tr) = length (goroutine t) - 1))"
proof -
  have wc: "waitCount t = int (length (stream_tasks t))"
    using assms by (rule Start_fresh_waitCount)
  have g: "goroutine t = (if wants_stdout t0 then [StdoutTask] else [])
                     @ (if wants_stderr t0 then [StderrTask] else [])
                     @ (if timeout t0 > 0 then [CtxTask] else [])"
    using assms(1,3) by (rule Start_fresh_goroutine)
  have tm: "timeout t = timeout t0" using assms(3) by (rule Start_keeps)
  have returns: "\<exists>tr. Wait p arrivals t = Returns (wait_err p, tr)"
    if "int (length (stream_tasks t)) \<le> int (length arrivals)"
  proof (rule Wait_Returns_if)
    show "cmd t" using assms(3) by (rule Start_keeps)
    show "goroutine t \<noteq> [] \<longrightarrow> done_chan t \<noteq> None"
      using Start_done_chan[OF assms(3)] by simp
    show "waitCount t \<le> int (length arrivals)" using that wc by simp
  qed
  have counted: "recvd_before_CmdWait tr = take (length (stream_tasks t)) arrivals \<and>
            length (recvd_before_CmdWait tr) = length (stream_tasks t) \<and>
            CmdWait \<in> set tr \<and> recvd_after_CmdWait tr = [] \<and>
            (timeout t \<le> 0 \<longrightarrow> length (recvd_before_CmdWait tr) = length (goroutine t)) \<and>
            (0 < timeout t \<longrightarrow> CtxTask \<in> set (goroutine t) \<and>
               length (recvd_before_CmdWait tr) = length (goroutine t) - 1)"
    if w: "Wait p arrivals t = Returns (e, tr)" for e tr
  proof -
    have n: "length (recvd_before_CmdWait tr) = length (stream_tasks t)"
      using Wait_Returns_trace(2)[OF w] wc by simp
    have a: "recvd_before_CmdWait tr = take (length (stream_tasks t)) arrivals"
      using Wait_Returns_trace(1)[OF w] wc by simp
    have b: "timeout t \<le> 0 \<longrightarrow> length (recvd_before_CmdWait tr) = length (goroutine t)"
      unfolding n using g tm by (simp add: stream_tasks_def)
    have c: "0 < timeout t \<longrightarrow> CtxTask \<in> set (goroutine t) \<and>
        length (recvd_before_CmdWait tr) = length (goroutine t) - 1"
      unfolding n using g tm by (simp add: stream_tasks_def)
    from a n b c Wait_Returns_trace(3,4)[OF w] show ?thesis by blast
  qed
  from returns counted show ?thesis by blast
qed

lemma Start_both_streams_5s: "Start os_ok both_streams_5s = (None, both_streams_5s_started)"
  by (simp add: both_streams_5s_def both_streams_5s_started_def start_defs os_ok_def New_def)

theorem Wait_consumes_one_signal_per_stream_task_witness:
  "goroutine both_streams_5s = [] \<and> \<not> cancel both_streams_5s \<and>
   Start os_ok both_streams_5s = (None, both_streams_5s_started) \<and>
   Wait echo_empty [''stderr'', ''stdout'', ''ctx''] both_streams_5s_started
     = Returns (None, [Recv ''stderr'', Recv ''stdout'', CmdWait, CallCancel]) \<and>
   recvd_before_CmdWait [Recv ''stderr'', Recv ''stdout'', CmdWait, CallCancel]
     = [''stderr'', ''stdout''] \<and>
   length (stream_tasks both_streams_5s_started) = 2 \<and>
   length (goroutine both_streams_5s_started) - 1 = 2 \<and>
   0 < timeout both_streams_5s_started"
proof -
  have f: "goroutine both_streams_5s = []" "\<not> cancel both_streams_5s"
    by (simp_all add: both_streams_5s_def New_def)
  have w: "Wait echo_empty [''stderr'', ''stdout'', ''ctx''] both_streams_5s_started
     = Returns (None, [Recv ''stderr'', Recv ''stdout'', CmdWait, CallCancel])"
    by (simp add: both_streams_5s_started_def New_def Wait_def waitCount_def received_def
        recv_events_def echo_empty_def)
  have s: "length (stream_tasks both_streams_5s_started) = 2"
       "length (goroutine both_streams_5s_started) - 1 = 2"
       "0 < timeout both_streams_5s_started"
    by (simp_all add: both_streams_5s_started_def New_def stream_tasks_def)
  from Wait_consumes_one_signal_per_stream_task
         [OF f Start_both_streams_5s, of "[''stderr'', ''stdout'', ''ctx'']" echo_empty]
       w s f Start_both_streams_5s
  show ?thesis by simp
qed

section \<open>Properties of the start action\<close>

subsection \<open>The invariant is kept by every step\<close>

lemma votes_received_simps [simp]:
  "votes_received [] = []"
  "votes_received (tr @ tr') = votes_received tr @ votes_received tr'"
  "votes_received (RecvVote v # tr) = v # votes_received tr"
  "votes_received (SendVote v # tr) = votes_received tr"
  "votes_received (CallAbort r # tr) = votes_received tr"
  "votes_received (CallStart r # tr) = votes_received tr"
  "votes_received (LogError a b # tr) = votes_received tr"
  "votes_received (LogInfo a b # tr) = votes_received tr"
  "votes_received (LogDebug a # tr) = votes_received tr"
  by (simp_all add: votes_received_def)

lemma started_drivers_simps [simp]:
  "started_drivers [] = []"
  "started_drivers (tr @ tr') = started_drivers tr @ started_drivers tr'"
  "started_drivers (RecvVote v # tr) = started_drivers tr"
  "started_drivers (SendVote v # tr) = started_drivers tr"
  "started_drivers (CallAbort r # tr) = started_drivers tr"
  "started_drivers (CallStart r # tr) = r # started_drivers tr"
  "started_drivers (LogError a b # tr) = started_drivers tr"
  "started_drivers (LogInfo a b # tr) = started_drivers tr"
  "started_drivers (LogDebug a # tr) = started_drivers tr"
  by (simp_all add: started_drivers_def)

lemma sum_list_map_update:
  fixes f :: "'a \<Rightarrow> nat"
  shows "i < length ws \<Longrightarrow>
    sum_list (map f (ws[i := w])) + f (ws ! i) = sum_list (map f ws) + f w"
proof (induction ws arbitrary: i)
  case Nil
  then show ?case by simp
next
  case (Cons a ws)
  then show ?case by (cases i) auto
qed

lemma alive_zero_Exited:
  "sum_list (map alive ws) = 0 \<Longrightarrow> i < length ws \<Longrightarrow> ws ! i = Exited"
proof -
  assume a: "sum_list (map alive ws) = 0" and i: "i < length ws"
  have "alive (ws ! i) = 0" using a i nth_mem by fastforce
  then show ?thesis by (cases "ws ! i") simp_all
qed

lemma has_sent_all:
  "sum_list (map alive ws) = 0 \<Longrightarrow> sum_list (map has_sent ws) = length ws"
proof (induction ws)
  case Nil
  then show ?case by simp
next
  case (Cons a ws)
  then show ?case by (cases a) simp_all
qed

lemma has_sent_le: "sum_list (map has_sent ws) \<le> length ws"
proof (induction ws)
  case Nil
  then show ?case by simp
next
  case (Cons a ws)
  then show ?case by (cases a) simp_all
qed

lemma voted_true_Nil [simp]: "\<not> voted_true rs []"
  by (simp add: voted_true_def)

lemma voted_true_spawn [simp]: "voted_true rs (ws @ [Spawned]) = voted_true rs ws"
  by (auto simp: voted_true_def nth_append less_Suc_eq)

lemma voted_true_same:
  "i < length ws \<Longrightarrow> has_sent w = has_sent (ws ! i) \<Longrightarrow>
   voted_true rs (ws[i := w]) = voted_true rs ws"
  unfolding voted_true_def
  by (metis length_list_update nth_list_update_eq nth_list_update_neq)

lemma voted_true_send:
  assumes "i < length ws" "has_sent (ws ! i) = 0"
  shows "voted_true rs (ws[i := Sent]) \<longleftrightarrow> voted_true rs ws \<or> vote (rs ! i)"
proof
  assume "voted_true rs (ws[i := Sent])"
  then obtain j where j: "j < length ws" "has_sent (ws[i := Sent] ! j) = 1" "vote (rs ! j)"
    by (auto simp: voted_true_def)
  show "voted_true rs ws \<or> vote (rs ! i)"
  proof (cases "j = i")
    case True
    with j show ?thesis by simp
  next
    case False
    with j show ?thesis by (auto simp: voted_true_def)
  qed
next
  assume "voted_true rs ws \<or> vote (rs ! i)"
  then show "voted_true rs (ws[i := Sent])"
  proof
    assume "voted_true rs ws"
    then obtain j where j: "j < length ws" "has_sent (ws ! j) = 1" "vote (rs ! j)"
      by (auto simp: voted_true_def)
    with assms have "j \<noteq> i" by auto
    with j show ?thesis unfolding voted_true_def
      by (metis length_list_update nth_list_update_neq)
  next
    assume "vote (rs ! i)"
    with assms(1) show ?thesis unfolding voted_true_def
      by (metis has_sent.simps(1) length_list_update nth_list_update_eq)
  qed
qed

lemma voted_true_all:
  assumes "sum_list (map alive ws) = 0" "length ws = length rs"
  shows "voted_true rs ws \<longleftrightarrow> (\<exists>r\<in>set rs. vote r)"
proof -
  have "\<forall>i<length ws. has_sent (ws ! i) = 1"
    using alive_zero_Exited[OF assms(1)] by simp
  moreover have "(\<exists>i<length rs. vote (rs ! i)) \<longleftrightarrow> (\<exists>r\<in>set rs. vote r)"
    by (metis in_set_conv_nth)
  ultimately show ?thesis unfolding voted_true_def using assms(2) by metis
qed

lemma votes_ok_Nil [simp]: "votes_ok rs []"
  by (simp add: votes_ok_def)

lemma votes_ok_spawn [simp]: "votes_ok rs (ws @ [Spawned]) = votes_ok rs ws"
  by (auto simp: votes_ok_def nth_append less_Suc_eq)

lemma votes_ok_update:
  "votes_ok rs ws \<Longrightarrow> (\<And>v. w = Voting v \<Longrightarrow> v = vote (rs ! i)) \<Longrightarrow> votes_ok rs (ws[i := w])"
  unfolding votes_ok_def
  by (metis length_list_update nth_list_update_eq nth_list_update_neq)

lemma votes_okD: "votes_ok rs ws \<Longrightarrow> i < length ws \<Longrightarrow> ws ! i = Voting v \<Longrightarrow> v = vote (rs ! i)"
  by (simp add: votes_ok_def)

lemma inv_init: "abort_inv rs (abort_init rs)"
  by (simp add: abort_inv_def phase_inv_def Let_def abort_init_def)

lemma main_step_inv:
  assumes "abort_inv rs s" "main_step rs s = Some s'"
  shows "abort_inv rs s'"
proof (cases "main s")
  case (Spawning k)
  show ?thesis
  proof (cases "k < length rs")
    case True
    with Spawning assms show ?thesis
      by (auto simp: abort_inv_def phase_inv_def Let_def main_step_def nth_append less_Suc_eq)
  next
    case False
    with Spawning assms show ?thesis
      by (auto simp: abort_inv_def phase_inv_def Let_def main_step_def)
  qed
next
  case Waiting
  with assms have wg0: "sum_list (map alive (workers s)) = 0" and len: "length (workers s) = length rs"
    by (auto simp: abort_inv_def phase_inv_def Let_def main_step_def split: if_splits)
  with Waiting assms has_sent_all[OF wg0] voted_true_all[OF wg0 len] show ?thesis
    by (auto simp: abort_inv_def phase_inv_def Let_def main_step_def split: if_splits)
next
  case (Collecting k ret)
  show ?thesis
  proof (cases "k < length rs")
    case True
    with Collecting assms show ?thesis
      by (auto simp: abort_inv_def phase_inv_def Let_def main_step_def split: if_splits list.splits)
  next
    case False
    with Collecting assms show ?thesis
      by (auto simp: abort_inv_def phase_inv_def Let_def main_step_def split: if_splits)
  qed
next
  case (Finished e)
  with assms show ?thesis by (simp add: main_step_def)
qed

lemma worker_phase:
  assumes "abort_inv rs s" "i < length (workers s)" "workers s ! i \<noteq> Exited"
  shows "(\<exists>k. main s = Spawning k) \<or> main s = Waiting"
proof -
  have "wg s \<noteq> 0"
  proof
    assume "wg s = 0"
    then have "sum_list (map alive (workers s)) = 0" using assms(1) by (simp add: abort_inv_def)
    from alive_zero_Exited[OF this assms(2)] assms(3) show False by simp
  qed
  with assms(1) show ?thesis
    by (cases "main s") (auto simp: abort_inv_def phase_inv_def Let_def)
qed

lemma abortWorker_live:
  assumes "abort_inv rs s" "abortWorker rs i s = Some s'"
  shows "(\<exists>k. main s = Spawning k) \<or> main s = Waiting"
proof -
  from assms(2) have "i < length (workers s)" and "workers s ! i \<noteq> Exited"
    by (auto simp: abortWorker_def split: if_splits worker_pc.splits)
  with assms(1) show ?thesis by (rule worker_phase)
qed

lemma abortWorker_inv:
  assumes "abort_inv rs s" "abortWorker rs i s = Some s'"
  shows "abort_inv rs s'"
proof -
  from assms(2) have i: "i < length (workers s)" "i < length rs"
    by (auto simp: abortWorker_def split: if_splits)
  note upd = sum_list_map_update[OF i(1), of alive] sum_list_map_update[OF i(1), of has_sent]
  from assms(1) have ok: "votes_ok rs (workers s)" by (simp add: abort_inv_def)
  show ?thesis
  proof (cases "workers s ! i")
    case Spawned
    define v where "v = (case Aborter (rs ! i) of None \<Rightarrow> False | Some a \<Rightarrow> a)"
    have v: "v = vote (rs ! i)" by (auto simp: v_def vote_def split: option.splits)
    have ws: "workers s' = (workers s)[i := Voting v]" and same: "q s' = q s" "wg s' = wg s"
      "main s' = main s" "q_cap s' = q_cap s" "votes_received (trace s') = votes_received (trace s)"
      "started_drivers (trace s') = started_drivers (trace s)"
      using assms(2) i Spawned by (auto simp: abortWorker_def v_def split: option.splits)
    have 1: "votes_ok rs (workers s')" unfolding ws using ok v by (auto intro: votes_ok_update)
    have 2: "voted_true rs (workers s') = voted_true rs (workers s)"
      unfolding ws using i Spawned by (simp add: voted_true_same)
    from assms(1) abortWorker_live[OF assms] 1 2 upd[of "Voting v"] Spawned same ws show ?thesis
      by (auto simp: abort_inv_def phase_inv_def Let_def)
  next
    case (Voting v)
    have v: "v = vote (rs ! i)" using votes_okD[OF ok i(1) Voting] .
    have ws: "workers s' = (workers s)[i := Sent]" and same: "q s' = q s @ [v]" "wg s' = wg s"
      "main s' = main s" "q_cap s' = q_cap s" "votes_received (trace s') = votes_received (trace s)"
      "started_drivers (trace s') = started_drivers (trace s)"
      using assms(2) i Voting by (auto simp: abortWorker_def split: if_splits)
    have 1: "votes_ok rs (workers s')" unfolding ws using ok by (auto intro: votes_ok_update)
    have 2: "voted_true rs (workers s') \<longleftrightarrow> voted_true rs (workers s) \<or> v"
      unfolding ws v using i Voting by (simp add: voted_true_send)
    from assms(1) abortWorker_live[OF assms] 1 2 upd[of Sent] Voting same ws show ?thesis
      by (auto simp: abort_inv_def phase_inv_def Let_def)
  next
    case Sent
    have ws: "workers s' = (workers s)[i := Exited]" and same: "q s' = q s" "wg s' = wg s - 1"
      "main s' = main s" "q_cap s' = q_cap s" "votes_received (trace s') = votes_received (trace s)"
      "started_drivers (trace s') = started_drivers (trace s)"
      using assms(2) i Sent by (auto simp: abortWorker_def split: if_splits)
    have 1: "votes_ok rs (workers s')" unfolding ws using ok by (auto intro: votes_ok_update)
    have 2: "voted_true rs (workers s') = voted_true rs (workers s)"
      unfolding ws using i Sent by (simp add: voted_true_same)
    from assms(1) abortWorker_live[OF assms] 1 2 upd[of Exited] Sent same ws show ?thesis
      by (auto simp: abort_inv_def phase_inv_def Let_def)
  next
    case Exited
    with assms i show ?thesis by (simp add: abortWorker_def)
  qed
qed

lemma reachable_inv: "reachable rs s \<Longrightarrow> abort_inv rs s"
proof (induction rule: reachable.induct)
  case init
  show ?case by (rule inv_init)
next
  case (step s k s')
  then show ?case
    by (cases k) (auto simp: abort_step_def intro: main_step_inv abortWorker_inv)
qed

lemma has_sent_lt:
  "i < length ws \<Longrightarrow> has_sent (ws ! i) = 0 \<Longrightarrow> sum_list (map has_sent ws) < length ws"
proof (induction ws arbitrary: i)
  case Nil
  then show ?case by simp
next
  case (Cons a ws)
  show ?case
  proof (cases i)
    case 0
    with Cons.prems has_sent_le[of ws] show ?thesis by simp
  next
    case (Suc j)
    with Cons.prems Cons.IH[of j] show ?thesis by (cases a) simp_all
  qed
qed

lemma send_room:
  assumes "abort_inv rs s" "i < length (workers s)" "workers s ! i = Voting v"
  shows "length (q s) < q_cap s"
proof -
  have "length (q s) = sum_list (map has_sent (workers s))"
    using worker_phase[OF assms(1,2)] assms(1,3)
    by (auto simp: abort_inv_def phase_inv_def Let_def)
  moreover have "sum_list (map has_sent (workers s)) < length (workers s)"
    using has_sent_lt[OF assms(2)] assms(3) by simp
  ultimately show ?thesis using assms(1) by (simp add: abort_inv_def)
qed

lemma worker_can_move:
  assumes "abort_inv rs s" "i < length (workers s)" "workers s ! i \<noteq> Exited"
  shows "abortWorker rs i s \<noteq> None"
proof -
  have "i < length rs" using assms(1,2) by (simp add: abort_inv_def)
  with assms(2,3) send_room[OF assms(1,2)] show ?thesis
    by (cases "workers s ! i") (auto simp: abortWorker_def split: option.splits)
qed

lemma enabledI: "k \<le> length (workers s) \<Longrightarrow> abort_step rs k s \<noteq> None \<Longrightarrow> enabled rs s \<noteq> []"
  by (auto simp: enabled_def filter_empty_conv simp del: upt_Suc)

lemma alive_pos_ex:
  "sum_list (map alive ws) \<noteq> 0 \<Longrightarrow> \<exists>i<length ws. ws ! i \<noteq> Exited"
proof (induction ws)
  case Nil
  then show ?case by simp
next
  case (Cons a ws)
  show ?case
  proof (cases "a = Exited")
    case True
    with Cons obtain i where "i < length ws" "ws ! i \<noteq> Exited" by auto
    then have "Suc i < length (a # ws) \<and> (a # ws) ! Suc i \<noteq> Exited" by simp
    then show ?thesis by blast
  next
    case False
    then have "0 < length (a # ws) \<and> (a # ws) ! 0 \<noteq> Exited" by simp
    then show ?thesis by blast
  qed
qed

lemma no_deadlock:
  assumes "abort_inv rs s"
  shows "(\<exists>e. main s = Finished e) \<or> enabled rs s \<noteq> []"
proof (cases "main s")
  case (Spawning k)
  then have "abort_step rs 0 s \<noteq> None" by (simp add: abort_step_def main_step_def)
  then show ?thesis using enabledI[of 0 s rs] by simp
next
  case Waiting
  show ?thesis
  proof (cases "wg s = 0")
    case True
    with Waiting have "abort_step rs 0 s \<noteq> None" by (simp add: abort_step_def main_step_def)
    then show ?thesis using enabledI[of 0 s rs] by simp
  next
    case False
    moreover have "wg s = sum_list (map alive (workers s))"
      using assms by (simp add: abort_inv_def)
    ultimately have "sum_list (map alive (workers s)) \<noteq> 0" by metis
    from alive_pos_ex[OF this] obtain i where i: "i < length (workers s)" "workers s ! i \<noteq> Exited"
      by blast
    from worker_can_move[OF assms i] have "abort_step rs (Suc i) s \<noteq> None"
      by (simp add: abort_step_def)
    moreover have "Suc i \<le> length (workers s)" using i by simp
    ultimately show ?thesis using enabledI[of "Suc i" s rs] by simp
  qed
next
  case (Collecting k ret)
  with assms have "abort_step rs 0 s \<noteq> None"
    by (auto simp: abort_step_def main_step_def abort_inv_def phase_inv_def Let_def
        split: list.splits)
  then show ?thesis using enabledI[of 0 s rs] by simp
next
  case (Finished e)
  then show ?thesis by simp
qed

lemma next_state_reachable:
  "reachable rs s \<Longrightarrow> k \<in> set (enabled rs s) \<Longrightarrow> reachable rs (next_state rs k s)"
  using enabled_step[of k rs s] by (auto simp: next_state_def intro: reachable.step)

lemma run_abort_reachable: "reachable rs s \<Longrightarrow> reachable rs (run_abort rs sched s)"
proof (induction rs sched s rule: run_abort.induct)
  case (1 rs sched s)
  show ?case
  proof (cases "enabled rs s = []")
    case True
    with 1 show ?thesis by (simp add: run_abort.simps)
  next
    case False
    show ?thesis
    proof (cases sched)
      case Nil
      have "hd (enabled rs s) \<in> set (enabled rs s)" using False by simp
      from next_state_reachable[OF "1.prems" this] "1.IH"(1)[OF False Nil] False Nil
      show ?thesis by (subst run_abort.simps) simp
    next
      case (Cons c cs)
      have "enabled rs s ! (c mod length (enabled rs s)) \<in> set (enabled rs s)"
        using False by simp
      from next_state_reachable[OF "1.prems" this] "1.IH"(2)[OF False Cons] False Cons
      show ?thesis by (subst run_abort.simps) simp
    qed
  qed
qed

lemma run_abort_stuck: "enabled rs (run_abort rs sched s) = []"
proof (induction rs sched s rule: run_abort.induct)
  case (1 rs sched s)
  show ?case
  proof (cases "enabled rs s = []")
    case True
    then show ?thesis by (simp add: run_abort.simps)
  next
    case False
    show ?thesis
    proof (cases sched)
      case Nil
      with False "1.IH"(1) show ?thesis by (subst run_abort.simps) simp
    next
      case (Cons c cs)
      with False "1.IH"(2) show ?thesis by (subst run_abort.simps) simp
    qed
  qed
qed

lemma run_abort_finished:
  "\<exists>e. main (run_abort rs sched (abort_init rs)) = Finished e"
  using no_deadlock[OF reachable_inv[OF run_abort_reachable[OF reachable.init]], of rs sched]
    run_abort_stuck[of rs sched "abort_init rs"] by simp

subsection \<open>What abortStart, lockedStart and masterStart return\<close>

lemma abortStart_returns:
  "\<exists>e tr. abortStart options sched rs = Returns (e, tr) \<and>
     (e = Some ''abort start'' \<longleftrightarrow> (\<exists>r\<in>set rs. vote r)) \<and>
     (e = None \<or> e = Some ''abort start'') \<and>
     started_drivers tr = [] \<and>
     length (votes_received tr) \<le> length rs \<and>
     (e = None \<longrightarrow> length (votes_received tr) = length rs) \<and>
     (e \<noteq> None \<longleftrightarrow> True \<in> set (votes_received tr)) \<and>
     True \<notin> set (butlast (votes_received tr))"
proof -
  define s where "s = run_abort rs sched (abort_init rs)"
  obtain e where e: "main s = Finished e" using run_abort_finished[of rs sched] by (auto simp: s_def)
  have "abort_inv rs s" unfolding s_def
    by (rule reachable_inv[OF run_abort_reachable[OF reachable.init]])
  with e have "(e = Some ''abort start'' \<longleftrightarrow> (\<exists>r\<in>set rs. vote r)) \<and>
     (e = None \<or> e = Some ''abort start'') \<and>
     started_drivers (trace s) = [] \<and>
     length (votes_received (trace s)) \<le> length rs \<and>
     (e = None \<longrightarrow> length (votes_received (trace s)) = length rs) \<and>
     (e \<noteq> None \<longleftrightarrow> True \<in> set (votes_received (trace s))) \<and>
     True \<notin> set (butlast (votes_received (trace s)))"
    by (auto simp: abort_inv_def phase_inv_def Let_def)
  moreover have "abortStart options sched rs = Returns (e, trace s)"
    using e by (simp add: abortStart_def s_def[symmetric])
  ultimately show ?thesis by blast
qed

lemma started_drivers_Nil: "started_drivers tr = [] \<Longrightarrow> CallStart r \<notin> set tr"
proof (induction tr)
  case Nil
  then show ?case by simp
next
  case (Cons a tr)
  then show ?case by (cases a) simp_all
qed

text \<open>
  C1. When some resource implements \<open>Aborter\<close> and its \<open>Abort\<close> returns true, then
  under every scheduling of the vote goroutines \<open>lockedStart\<close> returns the error
  \<open>abort start\<close>, and no \<open>Start\<close> of any resource was called on the way:
  \<open>masterStart\<close> is not reached.
\<close>

theorem lockedStart_abort_starts_nothing:
  assumes "\<exists>r\<in>set rs. Aborter r = Some True"
  shows "\<exists>tr. lockedStart options sched rs = Returns (Some ''abort start'', tr) \<and>
           started_drivers tr = [] \<and> (\<forall>r. CallStart r \<notin> set tr)"
proof -
  from abortStart_returns[of options sched rs] obtain e tr where
    r: "abortStart options sched rs = Returns (e, tr)"
    and e: "e = Some ''abort start'' \<longleftrightarrow> (\<exists>r\<in>set rs. vote r)"
    and tr: "started_drivers tr = []"
    by blast
  from assms e have "e = Some ''abort start''" by (simp add: vote_def)
  with r have "lockedStart options sched rs = Returns (Some ''abort start'', tr)"
    by (simp add: lockedStart_def)
  with tr started_drivers_Nil[OF tr] show ?thesis by blast
qed

theorem lockedStart_abort_starts_nothing_witness:
  "(\<exists>r\<in>set two_resources. Aborter r = Some True) \<and>
   lockedStart \<lparr>Force = False\<rparr> [0, 0, 2, 2, 2, 1, 1, 1] two_resources =
     Returns (Some ''abort start'',
       [LogDebug ''abort start check'', SendVote False, CallAbort veto_disk,
        LogError ''disk#0'' ''abort start'', SendVote True, RecvVote False, RecvVote True]) \<and>
   (\<exists>tr. lockedStart \<lparr>Force = False\<rparr> [0, 0, 2, 2, 2, 1, 1, 1] two_resources =
          Returns (Some ''abort start'', tr) \<and>
          started_drivers tr = [] \<and> (\<forall>r. CallStart r \<notin> set tr))"
proof -
  have h: "\<exists>r\<in>set two_resources. Aborter r = Some True"
    by (simp add: two_resources_def veto_disk_def)
  have v: "lockedStart \<lparr>Force = False\<rparr> [0, 0, 2, 2, 2, 1, 1, 1] two_resources =
     Returns (Some ''abort start'',
       [LogDebug ''abort start check'', SendVote False, CallAbort veto_disk,
        LogError ''disk#0'' ''abort start'', SendVote True, RecvVote False, RecvVote True])"
    by code_simp
  from h v lockedStart_abort_starts_nothing[OF h, of "\<lparr>Force = False\<rparr>" "[0, 0, 2, 2, 2, 1, 1, 1]"]
  show ?thesis by blast
qed

lemma masterStart_all_ok:
  "\<forall>r\<in>set rs. DriverStart r = None \<Longrightarrow>
   fst (masterStart options rs) = None \<and> started_drivers (snd (masterStart options rs)) = rs"
  by (induction rs) (auto split: prod.splits)

lemma masterStart_first_failure:
  "i < length rs \<Longrightarrow> DriverStart (rs ! i) = Some e \<Longrightarrow> \<forall>j<i. DriverStart (rs ! j) = None \<Longrightarrow>
   fst (masterStart options rs) = Some e \<and>
   started_drivers (snd (masterStart options rs)) = take (Suc i) rs"
proof (induction rs arbitrary: i)
  case Nil
  then show ?case by simp
next
  case (Cons r rs)
  show ?case
  proof (cases i)
    case 0
    with Cons.prems show ?thesis by simp
  next
    case (Suc j)
    have r: "DriverStart r = None" using Cons.prems(3) Suc by auto
    have "\<forall>k<j. DriverStart (rs ! k) = None" using Cons.prems(3) Suc by auto
    with Cons.IH[of j] Cons.prems(1,2) Suc
    have "fst (masterStart options rs) = Some e \<and>
          started_drivers (snd (masterStart options rs)) = take (Suc j) rs" by simp
    with r Suc show ?thesis by (auto split: prod.splits)
  qed
qed

text \<open>
  C2. \<open>masterStart\<close> calls \<open>Start\<close> on the resources in the order of the list. When
  the resource at position \<open>i\<close> is the first whose \<open>Start\<close> returns an error,
  \<open>masterStart\<close> returns that error and the drivers started are exactly the first
  \<open>i + 1\<close> of the list, in order: none after position \<open>i\<close>. When no \<open>Start\<close> fails
  it returns nil and has started the whole list in order.
\<close>

theorem masterStart_in_order_until_first_error:
  "(\<forall>i e. i < length rs \<and> DriverStart (rs ! i) = Some e \<and> (\<forall>j<i. DriverStart (rs ! j) = None)
      \<longrightarrow> fst (masterStart options rs) = Some e \<and>
          started_drivers (snd (masterStart options rs)) = take (Suc i) rs) \<and>
   ((\<forall>r\<in>set rs. DriverStart r = None)
      \<longrightarrow> fst (masterStart options rs) = None \<and>
          started_drivers (snd (masterStart options rs)) = rs)"
  using masterStart_first_failure[of _ rs _ options] masterStart_all_ok[of rs options] by blast

theorem masterStart_in_order_until_first_error_witness:
  "2 < length four_resources \<and> DriverStart (four_resources ! 2) = Some ''exit status 1'' \<and>
   DriverStart (four_resources ! 0) = None \<and> DriverStart (four_resources ! 1) = None \<and>
   fst (masterStart \<lparr>Force = False\<rparr> four_resources) = Some ''exit status 1'' \<and>
   started_drivers (snd (masterStart \<lparr>Force = False\<rparr> four_resources))
     = [ok_fs, ok_fs\<lparr>RID := ''fs#3''\<rparr>, plain_app] \<and>
   DriverStart ok_fs = None \<and>
   fst (masterStart \<lparr>Force = False\<rparr> [ok_fs, ok_fs]) = None \<and>
   started_drivers (snd (masterStart \<lparr>Force = False\<rparr> [ok_fs, ok_fs])) = [ok_fs, ok_fs]"
proof -
  have a: "2 < length four_resources" "DriverStart (four_resources ! 2) = Some ''exit status 1''"
    "DriverStart (four_resources ! 0) = None" "DriverStart (four_resources ! 1) = None"
    by (simp_all add: four_resources_def plain_app_def ok_fs_def)
  have b: "\<forall>j<2. DriverStart (four_resources ! j) = None"
    using a(3,4) by (auto simp: less_Suc_eq numeral_2_eq_2)
  have c: "DriverStart ok_fs = None" by (simp add: ok_fs_def)
  have t: "take (Suc 2) four_resources = [ok_fs, ok_fs\<lparr>RID := ''fs#3''\<rparr>, plain_app]"
    by (simp add: four_resources_def)
  from masterStart_in_order_until_first_error[of four_resources "\<lparr>Force = False\<rparr>"] a b t
  have "fst (masterStart \<lparr>Force = False\<rparr> four_resources) = Some ''exit status 1'' \<and>
   started_drivers (snd (masterStart \<lparr>Force = False\<rparr> four_resources))
     = [ok_fs, ok_fs\<lparr>RID := ''fs#3''\<rparr>, plain_app]" by metis
  moreover from masterStart_in_order_until_first_error[of "[ok_fs, ok_fs]" "\<lparr>Force = False\<rparr>"] c
  have "fst (masterStart \<lparr>Force = False\<rparr> [ok_fs, ok_fs]) = None \<and>
   started_drivers (snd (masterStart \<lparr>Force = False\<rparr> [ok_fs, ok_fs])) = [ok_fs, ok_fs]" by simp
  ultimately show ?thesis using a c by blast
qed

text \<open>
  C10, as stated, asks that the collection loop consume exactly one vote per resource.
  With two resources of which the first vetoes, the loop receives the true vote and
  then, \<open>ret\<close> being true, evaluates no further receive: one vote consumed, two
  resources.
\<close>

theorem abortStart_stops_receiving_after_veto:
  "abortStart \<lparr>Force = False\<rparr> [] two_resources =
     Returns (Some ''abort start'',
       [LogDebug ''abort start check'', CallAbort veto_disk,
        LogError ''disk#0'' ''abort start'', SendVote True, SendVote False, RecvVote True]) \<and>
   length (votes_received
       [LogDebug ''abort start check'', CallAbort veto_disk,
        LogError ''disk#0'' ''abort start'', SendVote True, SendVote False, RecvVote True]) = 1 \<and>
   length two_resources = 2"
proof -
  have "abortStart \<lparr>Force = False\<rparr> [] two_resources =
     Returns (Some ''abort start'',
       [LogDebug ''abort start check'', CallAbort veto_disk,
        LogError ''disk#0'' ''abort start'', SendVote True, SendVote False, RecvVote True])"
    by code_simp
  then show ?thesis by (simp add: two_resources_def)
qed

text \<open>
  C10, amended. In every state the abort check can reach: the channel has room for one
  vote per resource; there is at most one worker per resource, and exactly one per
  resource once the spawning loop is over; a worker holding a vote holds the vote of its
  resource (false for a driver without \<open>Abort\<close>) and finds room in the channel, so its
  send does not wait; while the loop has seen only false votes the channel still holds
  one vote for each remaining iteration, so its receive does not wait; some thread can
  move unless the caller has returned; the loop has received at most one vote per
  resource, and no vote after a true one. Under every scheduler \<open>abortStart\<close> returns,
  with the error \<open>abort start\<close> exactly when some resource votes true, and when it
  returns nil it has received exactly one vote per resource.
\<close>

theorem abortStart_never_blocks:
  assumes "reachable rs s"
  shows "q_cap s = length rs \<and>
         length (workers s) \<le> length rs \<and>
         ((\<forall>k. main s \<noteq> Spawning k) \<longrightarrow> length (workers s) = length rs) \<and>
         (\<forall>i v. i < length (workers s) \<and> workers s ! i = Voting v \<longrightarrow>
            v = vote (rs ! i) \<and> length (q s) < q_cap s \<and> abortWorker rs i s \<noteq> None) \<and>
         (\<forall>k. main s = Collecting k False \<longrightarrow> length (q s) = length rs - k) \<and>
         ((\<exists>e. main s = Finished e) \<or> enabled rs s \<noteq> []) \<and>
         length (votes_received (trace s)) \<le> length rs \<and>
         True \<notin> set (butlast (votes_received (trace s))) \<and>
         (\<exists>e tr. abortStart options sched rs = Returns (e, tr) \<and>
            (e = Some ''abort start'' \<longleftrightarrow> (\<exists>r\<in>set rs. vote r)) \<and>
            (e = None \<or> e = Some ''abort start'') \<and>
            length (votes_received tr) \<le> length rs \<and>
            (e = None \<longrightarrow> length (votes_received tr) = length rs))"
proof -
  have inv: "abort_inv rs s" using assms by (rule reachable_inv)
  have 1: "q_cap s = length rs" "length (workers s) \<le> length rs"
    using inv by (simp_all add: abort_inv_def)
  have 2: "(\<forall>k. main s \<noteq> Spawning k) \<longrightarrow> length (workers s) = length rs"
    using inv by (cases "main s") (simp_all add: abort_inv_def phase_inv_def Let_def)
  have 3: "v = vote (rs ! i) \<and> length (q s) < q_cap s \<and> abortWorker rs i s \<noteq> None"
    if "i < length (workers s) \<and> workers s ! i = Voting v" for i v
  proof -
    from that have i: "i < length (workers s)" and w: "workers s ! i = Voting v" by simp_all
    have "votes_ok rs (workers s)" using inv by (simp add: abort_inv_def)
    from votes_okD[OF this i w] send_room[OF inv i w] worker_can_move[OF inv i] w
    show ?thesis by simp
  qed
  have 4: "\<forall>k. main s = Collecting k False \<longrightarrow> length (q s) = length rs - k"
    using inv by (auto simp: abort_inv_def phase_inv_def Let_def)
  have 5: "(\<exists>e. main s = Finished e) \<or> enabled rs s \<noteq> []"
    using inv by (rule no_deadlock)
  have 6: "length (votes_received (trace s)) \<le> length rs \<and>
           True \<notin> set (butlast (votes_received (trace s)))"
    using inv by (cases "main s") (auto simp: abort_inv_def phase_inv_def Let_def)
  from abortStart_returns[of options sched rs]
  have 7: "\<exists>e tr. abortStart options sched rs = Returns (e, tr) \<and>
            (e = Some ''abort start'' \<longleftrightarrow> (\<exists>r\<in>set rs. vote r)) \<and>
            (e = None \<or> e = Some ''abort start'') \<and>
            length (votes_received tr) \<le> length rs \<and>
            (e = None \<longrightarrow> length (votes_received tr) = length rs)"
    by blast
  from 1 2 3 4 5 6 7 show ?thesis by blast
qed

lemma reachable_next_state:
  "reachable rs s \<Longrightarrow> abort_step rs k s \<noteq> None \<Longrightarrow> reachable rs (next_state rs k s)"
  by (auto simp: next_state_def intro: reachable.step)

lemma mid_vote_state_reachable: "reachable two_resources mid_vote_state"
proof -
  have s1: "next_state two_resources 0 (abort_init two_resources) =
      \<lparr>main = Spawning 1, workers = [Spawned], q = [], q_cap = 2, wg = 1,
       trace = [LogDebug ''abort start check'']\<rparr>"
    by (simp add: next_state_def abort_step_def main_step_def abort_init_def two_resources_def)
  have s2: "next_state two_resources 0 \<lparr>main = Spawning 1, workers = [Spawned], q = [], q_cap = 2, wg = 1,
       trace = [LogDebug ''abort start check'']\<rparr> =
      \<lparr>main = Spawning 2, workers = [Spawned, Spawned], q = [], q_cap = 2, wg = 2,
       trace = [LogDebug ''abort start check'']\<rparr>"
    by (simp add: next_state_def abort_step_def main_step_def two_resources_def)
  have s3: "next_state two_resources 2 \<lparr>main = Spawning 2, workers = [Spawned, Spawned], q = [], q_cap = 2, wg = 2,
       trace = [LogDebug ''abort start check'']\<rparr> = mid_vote_state"
    by (simp add: next_state_def abort_step_def abortWorker_def two_resources_def
        plain_app_def mid_vote_state_def numeral_2_eq_2)
  have "reachable two_resources (next_state two_resources 0 (abort_init two_resources))"
    by (rule reachable_next_state[OF reachable.init])
       (simp add: abort_step_def main_step_def abort_init_def two_resources_def)
  then have "reachable two_resources (next_state two_resources 0
       (next_state two_resources 0 (abort_init two_resources)))"
    unfolding s1 by (rule reachable_next_state[of _ "\<lparr>main = Spawning 1, workers = [Spawned], q = [], q_cap = 2, wg = 1,
       trace = [LogDebug ''abort start check'']\<rparr>"])
       (simp_all add: abort_step_def main_step_def two_resources_def)
  then have "reachable two_resources (next_state two_resources 2 (next_state two_resources 0
       (next_state two_resources 0 (abort_init two_resources))))"
    unfolding s1 s2 by (rule reachable_next_state)
       (simp_all add: abort_step_def abortWorker_def two_resources_def plain_app_def
          numeral_2_eq_2)
  then show ?thesis by (simp only: s1 s2 s3)
qed

theorem abortStart_never_blocks_witness:
  "reachable two_resources mid_vote_state \<and>
   q_cap mid_vote_state = length two_resources \<and>
   1 < length (workers mid_vote_state) \<and> workers mid_vote_state ! 1 = Voting False \<and>
   \<not> vote (two_resources ! 1) \<and>
   length (q mid_vote_state) < q_cap mid_vote_state \<and>
   abortWorker two_resources 1 mid_vote_state \<noteq> None \<and>
   enabled two_resources mid_vote_state \<noteq> [] \<and>
   (\<exists>r\<in>set two_resources. vote r) \<and>
   (\<exists>tr. abortStart \<lparr>Force = False\<rparr> [1, 2, 3] two_resources = Returns (Some ''abort start'', tr) \<and>
         length (votes_received tr) \<le> length two_resources)"
proof -
  have w: "1 < length (workers mid_vote_state) \<and> workers mid_vote_state ! 1 = Voting False"
    by (simp add: mid_vote_state_def)
  have m: "\<forall>e. main mid_vote_state \<noteq> Finished e" by (simp add: mid_vote_state_def)
  have v: "\<exists>r\<in>set two_resources. vote r"
    by (simp add: two_resources_def vote_def veto_disk_def)
  from abortStart_never_blocks[OF mid_vote_state_reachable, of "\<lparr>Force = False\<rparr>" "[1, 2, 3]"]
       w m v mid_vote_state_reachable
  show ?thesis by (metis option.distinct(1))
qed

section \<open>Properties of the selection dispatcher\<close>






lemmas action_defs = Action_def Expand_def daemonExpand_def selection_of_def unmarshal_to_def
  spawned_def newObject_by_kind_def svc_object_def svc1_def svc2_def odd1_def
  action_task_def call_result_def task_result_def elems_def Let_def









text \<open>
  C4. The claim has \<open>Action\<close> pass over, without a result, every object the action
  does not apply to. The loop tests only \<open>obj == nil\<close> and never the \<open>Value\<close> that
  \<open>MethodByName\<close> returns: for an object that exists but has no method \<open>Freeze\<close> a
  goroutine is spawned all the same, calling the zero \<open>Value\<close> panics in it, and the
  object contributes a result carrying that panic.
\<close>

theorem Action_reports_object_without_the_method:
  "newObject_by_kind svc1 = Some (svc_object svc1) \<and>
   svc_object svc1 ''Freeze'' = None \<and>
   Action newObject_by_kind (unmarshal_to [svc1]) two_svc ''Freeze'' [] [] =
     Returns [\<lparr>Path = svc1, Data = None, Error = None,
               Panic = Some ''reflect: call of reflect.Value.Call on zero Value''\<rparr>]"
  by (simp add: action_defs two_svc_def)

text \<open>
  The paths the loop does pass over are those for which \<open>NewObject\<close> returns nil: such
  a path gets no goroutine and contributes no result.
\<close>

lemma spawned_without_object:
  "newObject p = None \<Longrightarrow>
   spawned newObject action [p] = [] \<and> task_result newObject action fa p = None"
  by (simp add: task_result_def spawned_def)

text \<open>
  C7. When the request to the daemon returns an error, \<open>daemonExpand\<close> returns the nil
  slice with the error, \<open>Expand\<close> replaces it by an empty slice that is not nil and
  drops the error, and \<open>Action\<close> over that selection returns no result.
\<close>

theorem Expand_failure_is_empty_selection:
  assumes "Requester (API t) = Some do" and "do (SelectorExpression t) = Inl err"
  shows "daemonExpand unmarshal t = (None, Some err) \<and>
         Expand unmarshal t = Some [] \<and>
         Action newObject unmarshal t action fa sched = Returns []"
  using assms by (simp add: Action_def Expand_def daemonExpand_def spawned_def)

theorem Expand_failure_is_empty_selection_witness:
  "Requester (API (selection_of (Inl ''dial unix: connection refused''))) =
     Some (\<lambda>sel. Inl ''dial unix: connection refused'') \<and>
   Expand (unmarshal_to [svc1]) (selection_of (Inl ''dial unix: connection refused'')) = Some [] \<and>
   Action newObject_by_kind (unmarshal_to [svc1])
     (selection_of (Inl ''dial unix: connection refused'')) ''Start'' [] [0] = Returns []"
proof -
  have r: "Requester (API (selection_of (Inl ''dial unix: connection refused''))) =
     Some (\<lambda>sel. Inl ''dial unix: connection refused'')"
    by (simp add: selection_of_def)
  from Expand_failure_is_empty_selection[OF r, of "''dial unix: connection refused''"
         "unmarshal_to [svc1]" newObject_by_kind "''Start''" "[]" "[0]"] r
  show ?thesis by simp
qed


section \<open>Properties of the status bus\<close>

text \<open>
  C8. On a bus that is not started (the zero value, or any bus after \<open>Stop\<close>) \<open>Post\<close>
  and \<open>Get\<close> panic with \<open>ErrorNeedStart\<close> and return nothing; on a started bus (any
  bus \<open>Start\<close> returned) \<open>Start\<close> panics with \<open>ErrorStarted\<close>.
\<close>

theorem statusbus_lifecycle_misuse_fails_fast:
  "(\<not> bus_started b \<longrightarrow>
      statusbus_Post b p rid st pending = Panics ErrorNeedStart \<and>
      statusbus_Get b p rid = Panics ErrorNeedStart) \<and>
   (bus_started b \<longrightarrow> statusbus_Start b = Panics ErrorStarted) \<and>
   \<not> bus_started zero_bus \<and> \<not> bus_started (statusbus_Stop b) \<and>
   (\<forall>b'. statusbus_Start b = Returns b' \<longrightarrow> bus_started b')"
  by (auto simp: statusbus_Post_def statusbus_Get_def statusbus_Start_def statusbus_Stop_def
      zero_bus_def split: if_splits)

theorem statusbus_lifecycle_misuse_fails_fast_witness:
  "\<not> bus_started zero_bus \<and>
   statusbus_Post zero_bus \<lparr>Name = [], Namespace = [], Kind = []\<rparr> ''app#1'' Warn False
     = Panics ErrorNeedStart \<and>
   statusbus_Get zero_bus \<lparr>Name = [], Namespace = [], Kind = []\<rparr> ''app#1'' = Panics ErrorNeedStart \<and>
   statusbus_Start zero_bus = Returns (zero_bus\<lparr>bus_started := True\<rparr>) \<and>
   bus_started (zero_bus\<lparr>bus_started := True\<rparr>) \<and>
   statusbus_Start (zero_bus\<lparr>bus_started := True\<rparr>) = Panics ErrorStarted"
proof -
  have s: "statusbus_Start zero_bus = Returns (zero_bus\<lparr>bus_started := True\<rparr>)"
    by (simp add: statusbus_Start_def zero_bus_def)
  from statusbus_lifecycle_misuse_fails_fast
         [of zero_bus "\<lparr>Name = [], Namespace = [], Kind = []\<rparr>" "''app#1''" Warn False]
       statusbus_lifecycle_misuse_fails_fast
         [of "zero_bus\<lparr>bus_started := True\<rparr>" "\<lparr>Name = [], Namespace = [], Kind = []\<rparr>" "''app#1''" Warn False]
       s
  show ?thesis by simp
qed

end
